theory Spec2Isabelle
  imports Complex_Main "HOL-Library.Sublist"
begin

section \<open>Python strings\<close>

text \<open>
  A Python \<open>str\<close> is modelled as a \<open>string\<close> whose characters are the code points
  0 to 255 (the Latin-1 range, which holds the Spanish letters of the titles the service
  returns). In that range \<open>str.lower\<close> works character by character and
  \<open>str.isspace\<close> holds for the twelve code points listed below.
\<close>

definition lower_char :: "char \<Rightarrow> char" where
  "lower_char c = (let n = (of_char c :: nat) in
     if (65 \<le> n \<and> n \<le> 90) \<or> (192 \<le> n \<and> n \<le> 222 \<and> n \<noteq> 215)
     then char_of (n + 32) else c)"

definition lower :: "string \<Rightarrow> string" where
  "lower s = map lower_char s"

definition isspace :: "char \<Rightarrow> bool" where
  "isspace c = (let n = (of_char c :: nat) in
     (9 \<le> n \<and> n \<le> 13) \<or> (28 \<le> n \<and> n \<le> 32) \<or> n = 133 \<or> n = 160)"

text \<open>\<open>s.split()\<close> with no argument: the maximal runs of non-space characters.\<close>

fun split_acc :: "string \<Rightarrow> string \<Rightarrow> string list" where
  "split_acc w [] = (if w = [] then [] else [w])"
| "split_acc w (c # cs) =
     (if isspace c then (if w = [] then split_acc [] cs else w # split_acc [] cs)
      else split_acc (w @ [c]) cs)"

definition split :: "string \<Rightarrow> string list" where
  "split s = split_acc [] s"

text \<open>\<open>s.strip()\<close> with no argument.\<close>

definition strip :: "string \<Rightarrow> string" where
  "strip s = rev (dropWhile isspace (rev (dropWhile isspace s)))"

text \<open>\<open>a in b\<close> on strings: \<open>a\<close> occurs in \<open>b\<close> as a contiguous substring.\<close>

fun contains :: "string \<Rightarrow> string \<Rightarrow> bool" where
  "contains [] a = (a = [])"
| "contains (c # cs) a = (take (length a) (c # cs) = a \<or> contains cs a)"

text \<open>\<open>str(n)\<close> for an integer.\<close>

fun str_nat :: "nat \<Rightarrow> string" where
  "str_nat n = (if n < 10 then [char_of (48 + n)]
                else str_nat (n div 10) @ [char_of (48 + n mod 10)])"

declare str_nat.simps [simp del]

definition str_int :: "int \<Rightarrow> string" where
  "str_int i = (if i < 0 then CHR ''-'' # str_nat (nat (- i)) else str_nat (nat i))"

section \<open>Errors\<close>

text \<open>
  \<open>APIError\<close> is declared in \<open>models/boe_models.py\<close> as
  \<open>class APIError(BaseModel)\<close>, a pydantic model with the four fields below.
\<close>

record APIError =
  codigo :: int
  mensaje :: string
  detalles :: "string option"
  timestamp :: nat

record Response =
  status_code :: int
  resp_text :: string

text \<open>
  The exceptions that can travel through the client. \<open>RequestError\<close> stands for
  \<open>httpx.RequestError\<close> and its subclass \<open>TimeoutException\<close> and carries
  \<open>str(e)\<close>; \<open>HTTPStatusError\<close> carries \<open>e.response\<close> and \<open>str(e)\<close>.
  \<open>APIError_raised\<close> is an \<open>APIError\<close> travelling as an exception, which is what the
  docstrings of the client announce.
\<close>

datatype exn =
    RequestError string
  | HTTPStatusError Response string
  | JSONDecodeError string
  | XMLSyntaxError string
  | UnboundLocalError string
  | TypeError string
  | OtherException string
  | APIError_raised APIError

fun str_exn :: "exn \<Rightarrow> string" where
  "str_exn (RequestError m) = m"
| "str_exn (HTTPStatusError r m) = m"
| "str_exn (JSONDecodeError m) = m"
| "str_exn (XMLSyntaxError m) = m"
| "str_exn (UnboundLocalError m) = m"
| "str_exn (TypeError m) = m"
| "str_exn (OtherException m) = m"
| "str_exn (APIError_raised e) = mensaje e"

text \<open>
  The statement \<open>raise APIError(...)\<close>. The operand is built first; since its class
  derives from pydantic's \<open>BaseModel\<close> and not from \<open>BaseException\<close>, the
  \<open>raise\<close> statement itself fails and what propagates is a \<open>TypeError\<close>.
\<close>

definition raise_APIError :: "APIError \<Rightarrow> exn" where
  "raise_APIError e = TypeError ''exceptions must derive from BaseException''"

section \<open>The request executor: \<open>BOEHTTPClient._make_request\<close>\<close>

record BOEHTTPClient =
  timeout :: rat
  max_retries :: int
  retry_delay :: rat

text \<open>What one run does to the outside world, in order.\<close>

datatype event = Request int | Sleep rat

text \<open>\<open>response.raise_for_status()\<close> of httpx: any status outside 200..299 raises.\<close>

definition raise_for_status :: "(Response \<Rightarrow> string) \<Rightarrow> Response \<Rightarrow> exn + Response" where
  "raise_for_status status_text r =
     (if 200 \<le> status_code r \<and> status_code r \<le> 299 then Inr r
      else Inl (HTTPStatusError r (status_text r)))"

definition str_last :: "exn option \<Rightarrow> string" where
  "str_last l = (case l of None \<Rightarrow> ''None'' | Some e \<Rightarrow> str_exn e)"

definition connection_message :: string where
  "connection_message =
     ''Error de conexi'' @ [CHR 0xF3] @ ''n despu'' @ [CHR 0xE9] @ ''s de varios reintentos''"

text \<open>
  The body of \<open>for attempt in range(self.max_retries + 1)\<close> and the statement after it.
  \<open>send attempt\<close> is what \<open>self._client.request(...)\<close> does at that attempt: it returns
  a response or raises. \<open>tr\<close> the events so far.
\<close>

fun request_loop ::
  "BOEHTTPClient \<Rightarrow> (int \<Rightarrow> exn + Response) \<Rightarrow> (Response \<Rightarrow> string) \<Rightarrow> nat \<Rightarrow>
   int list \<Rightarrow> exn option \<Rightarrow> event list \<Rightarrow> (exn + Response) \<times> event list" where
  "request_loop c send status_text now [] last_exception tr =
     (Inl (raise_APIError \<lparr>codigo = 500, mensaje = connection_message,
                           detalles = Some (str_last last_exception), timestamp = now\<rparr>), tr)"
| "request_loop c send status_text now (attempt # rest) last_exception tr =
     (case (case send attempt of Inl e \<Rightarrow> Inl e | Inr r \<Rightarrow> raise_for_status status_text r) of
        Inr r \<Rightarrow> (Inr r, tr @ [Request attempt])
      | Inl (RequestError m) \<Rightarrow>
          request_loop c send status_text now rest (Some (RequestError m))
            (tr @ [Request attempt] @
              (if attempt < max_retries c then [Sleep (retry_delay c * of_int (attempt + 1))] else []))
      | Inl (HTTPStatusError r m) \<Rightarrow>
          (Inl (raise_APIError \<lparr>codigo = status_code r,
                                mensaje = ''Error HTTP '' @ str_int (status_code r),
                                detalles = Some m, timestamp = now\<rparr>),
           tr @ [Request attempt])
      | Inl e \<Rightarrow> (Inl e, tr @ [Request attempt]))"

definition make_request ::
  "BOEHTTPClient \<Rightarrow> (int \<Rightarrow> exn + Response) \<Rightarrow> (Response \<Rightarrow> string) \<Rightarrow> nat \<Rightarrow>
   (exn + Response) \<times> event list" where
  "make_request c send status_text now =
     request_loop c send status_text now [0..max_retries c] None []"

text \<open>The number of calls to the backend in a run.\<close>

definition attempts :: "event list \<Rightarrow> nat" where
  "attempts tr = length (filter (\<lambda>ev. case ev of Request a \<Rightarrow> True | Sleep d \<Rightarrow> False) tr)"

text \<open>The events of one attempt that fails with a transient fault.\<close>

definition failed_attempt :: "BOEHTTPClient \<Rightarrow> int \<Rightarrow> event list" where
  "failed_attempt c a =
     Request a # (if a < max_retries c then [Sleep (retry_delay c * of_int (a + 1))] else [])"

text \<open>The value of \<open>last_exception\<close> after the attempts \<open>as\<close>, starting from \<open>l\<close>.\<close>

definition last_failure :: "(int \<Rightarrow> exn + Response) \<Rightarrow> int list \<Rightarrow> exn option \<Rightarrow> exn option" where
  "last_failure send as l = fold (\<lambda>a l. case send a of Inl e \<Rightarrow> Some e | Inr r \<Rightarrow> l) as l"

section \<open>Python values\<close>

text \<open>
  The values the client hands to its callers: \<open>str\<close>, \<open>list\<close> and \<open>dict\<close> with string
  keys. A \<open>dict\<close> keeps its keys in insertion order, so it is an association list in
  which no key occurs twice.
\<close>

datatype pyval = PStr string | PList "pyval list" | PDict "(string \<times> pyval) list"

text \<open>\<open>d[k] = v\<close>: an existing key keeps its place, a new key goes to the end.\<close>

fun dict_set :: "string \<Rightarrow> pyval \<Rightarrow> (string \<times> pyval) list \<Rightarrow> (string \<times> pyval) list" where
  "dict_set k v [] = [(k, v)]"
| "dict_set k v ((k', v') # d) = (if k' = k then (k, v) # d else (k', v') # dict_set k v d)"

text \<open>\<open>d.update(e)\<close>.\<close>

definition dict_update ::
  "(string \<times> pyval) list \<Rightarrow> (string \<times> pyval) list \<Rightarrow> (string \<times> pyval) list" where
  "dict_update d e = fold (\<lambda>(k, v) acc. dict_set k v acc) e d"

section \<open>The response normalizer: \<open>_xml_to_dict\<close> and \<open>_parse_response\<close>\<close>

text \<open>
  An element of the tree that \<open>lxml.etree.fromstring\<close> returns: its tag, its attributes
  in document order, the text before its first child (\<open>None\<close> when there is none) and
  its child elements.
\<close>

datatype element = Element (tag: string) (attrib: "(string \<times> string) list")
  (elem_text: "string option") (children: "element list")

text \<open>
  One round of the loop \<open>for child in children\<close>: store the child's conversion under its
  tag, turning the entry into a list when the tag is already there.
\<close>

definition add_child :: "string \<Rightarrow> pyval \<Rightarrow> (string \<times> pyval) list \<Rightarrow> (string \<times> pyval) list" where
  "add_child t child_data child_dict =
     (case map_of child_dict t of
        None \<Rightarrow> dict_set t child_data child_dict
      | Some (PList vs) \<Rightarrow> dict_set t (PList (vs @ [child_data])) child_dict
      | Some v \<Rightarrow> dict_set t (PList ([v] @ [child_data])) child_dict)"

fun xml_to_dict :: "element \<Rightarrow> pyval" where
  "xml_to_dict (Element t attrs txt cs) =
     (let result = fold (\<lambda>(key, val) r. dict_set (CHR ''@'' # key) (PStr val) r) attrs [] in
      if cs \<noteq> [] then
        let child_dict = fold (\<lambda>child d. add_child (tag child) (xml_to_dict child) d) cs [];
            child_dict' =
              (case txt of
                 None \<Rightarrow> child_dict
               | Some s \<Rightarrow> if s \<noteq> [] \<and> strip s \<noteq> []
                           then dict_set ''text'' (PStr (strip s)) child_dict else child_dict)
        in PDict (dict_update result child_dict')
      else PStr (case txt of None \<Rightarrow> [] | Some s \<Rightarrow> if s \<noteq> [] then strip s else []))"

text \<open>
  The conversions of the children of an element that carry the tag \<open>t\<close>, in document
  order, and the entry such a list of conversions makes: none for no occurrence, the
  conversion itself for one, the list for more.
\<close>

definition occurrences :: "string \<Rightarrow> element list \<Rightarrow> pyval list" where
  "occurrences t cs = map xml_to_dict (filter (\<lambda>c. tag c = t) cs)"

definition grouped :: "pyval list \<Rightarrow> pyval option" where
  "grouped vs = (case vs of [] \<Rightarrow> None | [v] \<Rightarrow> Some v | _ \<Rightarrow> Some (PList vs))"

text \<open>
  The clause \<open>except (json.JSONDecodeError, etree.XMLSyntaxError) as e\<close> of
  \<open>_parse_response\<close>, reached by an exception \<open>e\<close> of the \<open>try\<close> block. The name
  \<open>etree\<close> is a local variable of the function, bound by the
  \<open>from lxml import etree\<close> of the XML branch only: where that statement has not run,
  evaluating the clause fails with \<open>UnboundLocalError\<close> (which carries the variable's
  name here) whatever \<open>e\<close> is. Otherwise the two parse errors are turned into
  \<open>raise APIError(codigo=500, ...)\<close> and every other exception passes through.
\<close>

definition parse_error_message :: string where
  "parse_error_message = ''Error parseando respuesta de la API''"

definition except_clause :: "bool \<Rightarrow> nat \<Rightarrow> exn \<Rightarrow> exn" where
  "except_clause etree_bound now e =
     (if \<not> etree_bound then UnboundLocalError ''etree''
      else case e of
          JSONDecodeError m \<Rightarrow>
            raise_APIError \<lparr>codigo = 500, mensaje = parse_error_message,
                            detalles = Some m, timestamp = now\<rparr>
        | XMLSyntaxError m \<Rightarrow>
            raise_APIError \<lparr>codigo = 500, mensaje = parse_error_message,
                            detalles = Some m, timestamp = now\<rparr>
        | _ \<Rightarrow> e)"

text \<open>
  \<open>_parse_response\<close>. The two parsers belong to libraries and are parameters:
  \<open>json_loads\<close> is \<open>json.loads\<close> and \<open>fromstring\<close> is
  \<open>etree.fromstring(content.encode('utf-8'))\<close>; each returns a value or raises.
\<close>

definition parse_response ::
  "(string \<Rightarrow> exn + pyval) \<Rightarrow> (string \<Rightarrow> exn + element) \<Rightarrow> nat \<Rightarrow>
   Response \<Rightarrow> string \<Rightarrow> exn + pyval" where
  "parse_response json_loads fromstring now response accept_format =
     (let content = resp_text response in
      if accept_format = ''application/json'' then
        (case json_loads content of
           Inr v \<Rightarrow> Inr v
         | Inl e \<Rightarrow> Inl (except_clause False now e))
      else if accept_format = ''application/xml'' then
        (case fromstring content of
           Inr root_element \<Rightarrow> Inr (xml_to_dict root_element)
         | Inl e \<Rightarrow> Inl (except_clause True now e))
      else
        Inl (except_clause False now
          (raise_APIError \<lparr>codigo = 400,
             mensaje = ''Formato no soportado: '' @ accept_format,
             detalles = None, timestamp = now\<rparr>)))"

section \<open>The query builder: \<open>build_search_query\<close>\<close>

text \<open>The truth value of an \<open>Optional[str]\<close>: \<open>None\<close> and the empty string are false.\<close>

definition truthy :: "string option \<Rightarrow> bool" where
  "truthy s = (case s of None \<Rightarrow> False | Some t \<Rightarrow> t \<noteq> [])"

text \<open>\<open>sep.join(parts)\<close>.\<close>

fun join :: "string \<Rightarrow> string list \<Rightarrow> string" where
  "join sep [] = []"
| "join sep [p] = p"
| "join sep (p # q # ps) = p @ sep @ join sep (q # ps)"

text \<open>The list \<open>query_parts\<close> once the five \<open>if\<close> statements have run.\<close>

definition query_parts ::
  "string option \<Rightarrow> string option \<Rightarrow> string option \<Rightarrow> string option \<Rightarrow> string option \<Rightarrow>
   string list" where
  \<open>query_parts text_arg title department legal_range matter =
     (if truthy text_arg then [''texto:"'' @ the text_arg @ ''"''] else []) @
     (if truthy title then [''titulo:"'' @ the title @ ''"''] else []) @
     (if truthy department then [''departamento@codigo:'' @ the department] else []) @
     (if truthy legal_range then [''rango@codigo:'' @ the legal_range] else []) @
     (if truthy matter then [''materia@codigo:'' @ the matter] else [])\<close>

text \<open>The dictionary \<open>date_range\<close>.\<close>

definition date_range :: "string option \<Rightarrow> string option \<Rightarrow> (string \<times> pyval) list" where
  "date_range date_from date_to =
     (let d = [];
          d = (if truthy date_from then dict_set ''gte'' (PStr (the date_from)) d else d);
          d = (if truthy date_to then dict_set ''lte'' (PStr (the date_to)) d else d)
      in d)"

text \<open>The dictionary \<open>query_json\<close> that is serialized.\<close>

definition query_json ::
  "string option \<Rightarrow> string option \<Rightarrow> string option \<Rightarrow> string option \<Rightarrow> string option \<Rightarrow>
   string option \<Rightarrow> string option \<Rightarrow> pyval" where
  "query_json text_arg title department legal_range matter date_from date_to =
     (let parts = query_parts text_arg title department legal_range matter;
          query_string = (if parts \<noteq> [] then join '' AND '' parts else []);
          inner = [(''query_string'', PDict [(''query'', PStr query_string)])];
          inner = (if truthy date_from \<or> truthy date_to
                   then dict_set ''range''
                          (PDict [(''fecha_publicacion'', PDict (date_range date_from date_to))])
                          inner
                   else inner)
      in PDict [(''query'', PDict inner)])"

text \<open>
  \<open>build_search_query\<close> returns \<open>json.dumps(query_json, ensure_ascii=False)\<close>; the
  serializer belongs to a library and is the parameter \<open>json_dumps\<close>.
\<close>

definition build_search_query ::
  "(pyval \<Rightarrow> string) \<Rightarrow> string option \<Rightarrow> string option \<Rightarrow> string option \<Rightarrow> string option \<Rightarrow>
   string option \<Rightarrow> string option \<Rightarrow> string option \<Rightarrow> string" where
  "build_search_query json_dumps text_arg title department legal_range matter date_from date_to =
     json_dumps (query_json text_arg title department legal_range matter date_from date_to)"

section \<open>The result validator: \<open>SearchResultValidator.validate_search_results\<close>\<close>

text \<open>
  A search result is a dictionary of which the validator reads two keys, each absent or
  holding a string.
\<close>

record search_result =
  titulo :: "string option"
  identificador :: "string option"

record validation =
  search_text :: string
  total_results :: nat
  matching_results :: nat
  confidence :: rat
  likely_incorrect :: bool
  mismatched_titles :: "string list"

text \<open>\<open>result.get(key, default)\<close>.\<close>

definition get_or :: "string option \<Rightarrow> string \<Rightarrow> string" where
  "get_or v d = (case v of None \<Rightarrow> d | Some s \<Rightarrow> s)"

definition sin_titulo :: string where
  "sin_titulo = ''Sin t'' @ [CHR 0xED] @ ''tulo''"

text \<open>The inner loop \<open>for term in search_terms\<close>, which stops at the first match.\<close>

fun match_found :: "string list \<Rightarrow> string \<Rightarrow> string \<Rightarrow> bool" where
  "match_found [] title identifier = False"
| "match_found (term # rest) title identifier =
     (if contains title term \<or> contains identifier term then True
      else match_found rest title identifier)"

text \<open>The outer loop \<open>for result in results\<close>.\<close>

fun check_results :: "string list \<Rightarrow> search_result list \<Rightarrow> validation \<Rightarrow> validation" where
  "check_results search_terms [] v = v"
| "check_results search_terms (result # rest) v =
     (let title = lower (get_or (titulo result) []);
          identifier = lower (get_or (identificador result) [])
      in if match_found search_terms title identifier
         then check_results search_terms rest (v\<lparr>matching_results := matching_results v + 1\<rparr>)
         else check_results search_terms rest
                (v\<lparr>mismatched_titles :=
                     mismatched_titles v @ [get_or (titulo result) sin_titulo]\<rparr>))"

text \<open>
  The division of two integers and the comparison with \<open>0.3\<close> are exact here, where the
  program computes with floats; the two agree for every list a machine can hold.
  The logging that \<open>log_mismatches\<close> switches on changes no result and is left out.
\<close>

definition validate_search_results :: "string \<Rightarrow> search_result list \<Rightarrow> validation" where
  "validate_search_results text_arg results =
     (let v = \<lparr>search_text = text_arg, total_results = length results, matching_results = 0,
                confidence = 0, likely_incorrect = False, mismatched_titles = []\<rparr>
      in if results = [] then v
         else
           let search_lower = lower text_arg;
               search_terms = split search_lower;
               v = check_results search_terms results v;
               v = (if total_results v > 0
                    then v\<lparr>confidence := of_nat (matching_results v) / of_nat (total_results v)\<rparr>
                    else v);
               v = v\<lparr>likely_incorrect := (confidence v < 3 / 10)\<rparr>
           in v)"

text \<open>
  The validator as the specification words it: the tokens of the search text are its
  whitespace-separated words, each put in lower case; a result matches when some token is
  a substring of its lowercased title or of its lowercased identifier.
\<close>

definition tokens :: "string \<Rightarrow> string list" where
  "tokens text_arg = map lower (split text_arg)"

definition is_matching :: "string \<Rightarrow> search_result \<Rightarrow> bool" where
  "is_matching text_arg result =
     list_ex (\<lambda>tok. sublist tok (lower (get_or (titulo result) [])) \<or>
                    sublist tok (lower (get_or (identificador result) [])))
       (tokens text_arg)"

section \<open>Identifier validation: \<open>validate_boe_identifier\<close>\<close>

text \<open>
  An identifier is any Python \<open>str\<close>, so in this section a string is the list of its
  code points, with no bound on them; \<open>codes\<close> gives the code points of a literal.
  Which code points \<open>\d\<close> accepts is decided by the Unicode table of the interpreter
  (the decimal digits, category Nd): that table is the parameter \<open>decimal\<close> of the
  matcher. \<open>ascii_digit\<close> is the ten digits \<open>0\<close> to \<open>9\<close>, which every such table
  holds.
\<close>

definition codes :: "string \<Rightarrow> nat list" where
  "codes s = map of_char s"

definition ascii_digit :: "nat \<Rightarrow> bool" where
  "ascii_digit c = (48 \<le> c \<and> c \<le> 57)"

text \<open>
  The regular expressions the pattern is made of, and Python's matching of them from a
  position of the subject: \<open>rmatch decimal r (n, s)\<close> lists the ways \<open>r\<close> can match at
  offset \<open>n\<close>, where \<open>s\<close> is what is left of the subject, each as the offset and the
  rest after the match. \<open>Bol\<close> is \<open>^\<close>, which matches at offset 0; \<open>Eol\<close> is \<open>$\<close>,
  which matches at the end of the subject and also just before a line feed (code point
  10) that ends it; \<open>Digit\<close> is \<open>\d\<close>; \<open>Rep m n r\<close> is \<open>r{m,n}\<close>.
\<close>

datatype regex =
    Lit "nat list"
  | Digit
  | Bol
  | Eol
  | Alt regex regex
  | Seq regex regex
  | Rep nat nat regex

fun iter ::
  "nat \<Rightarrow> (nat \<times> nat list \<Rightarrow> (nat \<times> nat list) list) \<Rightarrow> nat \<times> nat list \<Rightarrow>
   (nat \<times> nat list) list" where
  "iter 0 f st = [st]"
| "iter (Suc k) f st = concat (map (iter k f) (f st))"

primrec rmatch :: "(nat \<Rightarrow> bool) \<Rightarrow> regex \<Rightarrow> nat \<times> nat list \<Rightarrow> (nat \<times> nat list) list" where
  "rmatch decimal (Lit l) = (\<lambda>(n, s). if take (length l) s = l
                                        then [(n + length l, drop (length l) s)] else [])"
| "rmatch decimal Digit = (\<lambda>(n, s). case s of [] \<Rightarrow> []
                                       | c # cs \<Rightarrow> if decimal c then [(n + 1, cs)] else [])"
| "rmatch decimal Bol = (\<lambda>(n, s). if n = 0 then [(n, s)] else [])"
| "rmatch decimal Eol = (\<lambda>(n, s). if s = [] \<or> s = [10] then [(n, s)] else [])"
| "rmatch decimal (Alt a b) = (\<lambda>st. rmatch decimal a st @ rmatch decimal b st)"
| "rmatch decimal (Seq a b) = (\<lambda>st. concat (map (rmatch decimal b) (rmatch decimal a st)))"
| "rmatch decimal (Rep m n r) =
     (\<lambda>st. concat (map (\<lambda>k. iter k (rmatch decimal r) st) (rev [m..<Suc n])))"

text \<open>\<open>bool(re.match(pattern, s))\<close>: the pattern matches at the beginning of \<open>s\<close>.\<close>

definition re_match :: "(nat \<Rightarrow> bool) \<Rightarrow> regex \<Rightarrow> nat list \<Rightarrow> bool" where
  "re_match decimal r s = (rmatch decimal r (0, s) \<noteq> [])"

text \<open>The pattern \<^verbatim>\<open>^(BOE|BORME)-S-\d{4}-\d{1,3}$\<close>.\<close>

definition pattern :: regex where
  "pattern =
     Seq Bol (Seq (Alt (Lit (codes ''BOE'')) (Lit (codes ''BORME''))) (Seq (Lit (codes ''-S-''))
       (Seq (Rep 4 4 Digit) (Seq (Lit (codes ''-'')) (Seq (Rep 1 3 Digit) Eol)))))"

definition validate_boe_identifier :: "(nat \<Rightarrow> bool) \<Rightarrow> nat list \<Rightarrow> bool" where
  "validate_boe_identifier decimal identifier = re_match decimal pattern identifier"

text \<open>
  The check that \<open>LegislationTools.get_consolidated_law\<close> makes on \<open>law_id\<close> before
  any request is sent. \<open>InvalidParameter\<close> stands for the text that
  \<open>BOEWarnings.invalid_parameter_warning\<close> formats from its three arguments; the
  result is \<open>None\<close> when the method goes on to the requests.
\<close>

datatype warning = InvalidParameter "nat list" "nat list" "nat list"

definition law_id_validation :: "(nat \<Rightarrow> bool) \<Rightarrow> nat list \<Rightarrow> warning option" where
  "law_id_validation decimal law_id =
     (if \<not> validate_boe_identifier decimal law_id
      then Some (InvalidParameter (codes ''law_id'') law_id (codes ''BOE-A-YYYY-NNNNN''))
      else None)"

text \<open>
  The strings \<open>(BOE|BORME)-S-dddd-d\<close>, \<open>-dd\<close> or \<open>-ddd\<close>, each \<open>d\<close> being a code
  point that \<open>digit\<close> accepts. With \<open>ascii_digit\<close> these are the strings of the
  documented form, four and one to three of the digits \<open>0\<close> to \<open>9\<close>.
\<close>

definition identifier_form :: "(nat \<Rightarrow> bool) \<Rightarrow> nat list \<Rightarrow> bool" where
  "identifier_form digit s =
     (\<exists>p y n. s = p @ codes ''-S-'' @ y @ codes ''-'' @ n \<and>
        (p = codes ''BOE'' \<or> p = codes ''BORME'') \<and>
        length y = 4 \<and> list_all digit y \<and>
        1 \<le> length n \<and> length n \<le> 3 \<and> list_all digit n)"

text \<open>
  Three auxiliary predicates: what the pattern's last part \<^verbatim>\<open>\d{1,3}$\<close> accepts, what the
  whole pattern accepts after the prefix \<open>p\<close>, in terms of \<open>take\<close> and \<open>drop\<close>, and the
  strings \<open>p-S-dddd-d...\<close> followed by \<open>rest\<close>.
\<close>

definition ending :: "(nat \<Rightarrow> bool) \<Rightarrow> nat list \<Rightarrow> bool" where
  "ending digit w = (\<exists>k. 1 \<le> k \<and> k \<le> 3 \<and> k \<le> length w \<and> list_all digit (take k w) \<and>
                 (drop k w = [] \<or> drop k w = [10]))"

definition body :: "(nat \<Rightarrow> bool) \<Rightarrow> nat list \<Rightarrow> nat list \<Rightarrow> bool" where
  "body digit p s =
     (take (length p) s = p \<and> take 3 (drop (length p) s) = codes ''-S-'' \<and>
      4 \<le> length (drop (length p + 3) s) \<and>
      list_all digit (take 4 (drop (length p + 3) s)) \<and>
      take 1 (drop (length p + 7) s) = codes ''-'' \<and>
      ending digit (drop (length p + 8) s))"

definition shaped :: "(nat \<Rightarrow> bool) \<Rightarrow> nat list \<Rightarrow> nat list \<Rightarrow> nat list \<Rightarrow> bool" where
  "shaped digit p rest s =
     (\<exists>y n. s = p @ codes ''-S-'' @ y @ codes ''-'' @ n @ rest \<and> length y = 4 \<and>
        list_all digit y \<and> 1 \<le> length n \<and> length n \<le> 3 \<and> list_all digit n)"

section \<open>An instance of the JSON library\<close>

text \<open>
  \<open>json.dumps\<close> and \<open>json.loads\<close> are parameters of the definitions above. This
  section gives one instance of them, written after the library's documented behaviour
  and used for the examples and for the round trip proved last: the text that Python's
  \<open>json.dumps(v, ensure_ascii=...)\<close> writes for strings, lists and dictionaries with its
  default separators, and a parser for the JSON texts whose values are strings, arrays
  and objects (numbers and the literals \<open>true\<close>, \<open>false\<close> and \<open>null\<close> have no
  counterpart among the values modelled here and are rejected). The parser's recursion is
  bounded by the length of its input.
\<close>

definition hex_digit :: "nat \<Rightarrow> char" where
  "hex_digit n = (if n < 10 then char_of (48 + n) else char_of (87 + n))"

definition hex_value :: "char \<Rightarrow> nat option" where
  "hex_value c = (let n = (of_char c :: nat) in
     if 48 \<le> n \<and> n \<le> 57 then Some (n - 48)
     else if 97 \<le> n \<and> n \<le> 102 then Some (n - 87)
     else if 65 \<le> n \<and> n \<le> 70 then Some (n - 55)
     else None)"

definition escape_char :: "bool \<Rightarrow> char \<Rightarrow> string" where
  "escape_char ensure_ascii c = (let n = (of_char c :: nat) in
     if n = 34 then [CHR 0x5C, CHR 0x22]
     else if n = 92 then [CHR 0x5C, CHR 0x5C]
     else if n = 10 then [CHR 0x5C, CHR ''n'']
     else if n = 13 then [CHR 0x5C, CHR ''r'']
     else if n = 9 then [CHR 0x5C, CHR ''t'']
     else if n = 8 then [CHR 0x5C, CHR ''b'']
     else if n = 12 then [CHR 0x5C, CHR ''f'']
     else if n < 32 \<or> (ensure_ascii \<and> 126 < n)
       then [CHR 0x5C, CHR ''u'', CHR ''0'', CHR ''0'', hex_digit (n div 16), hex_digit (n mod 16)]
     else [c])"

definition dumps_str :: "bool \<Rightarrow> string \<Rightarrow> string" where
  "dumps_str ensure_ascii s =
     [CHR 0x22] @ concat (map (escape_char ensure_ascii) s) @ [CHR 0x22]"

fun json_dumps_py :: "bool \<Rightarrow> pyval \<Rightarrow> string" where
  "json_dumps_py ensure_ascii (PStr s) = dumps_str ensure_ascii s"
| "json_dumps_py ensure_ascii (PList vs) =
     ''['' @ join '', '' (map (json_dumps_py ensure_ascii) vs) @ '']''"
| "json_dumps_py ensure_ascii (PDict kvs) =
     ''{'' @ join '', ''
        (map (\<lambda>(k, v). dumps_str ensure_ascii k @ '': '' @ json_dumps_py ensure_ascii v) kvs) @
     ''}''"

definition json_space :: "char \<Rightarrow> bool" where
  "json_space c = (let n = (of_char c :: nat) in n = 32 \<or> n = 9 \<or> n = 10 \<or> n = 13)"

fun scan_string :: "string \<Rightarrow> string \<Rightarrow> (string \<times> string) option" where
  "scan_string acc [] = None"
| "scan_string acc (c # cs) =
     (if c = CHR 0x22 then Some (acc, cs)
      else if c = CHR 0x5C then
        (case cs of
           [] \<Rightarrow> None
         | e # es \<Rightarrow>
             if e = CHR 0x22 then scan_string (acc @ [CHR 0x22]) es
             else if e = CHR 0x5C then scan_string (acc @ [CHR 0x5C]) es
             else if e = CHR ''/'' then scan_string (acc @ [CHR ''/'']) es
             else if e = CHR ''n'' then scan_string (acc @ [CHR 0x0A]) es
             else if e = CHR ''r'' then scan_string (acc @ [CHR 0x0D]) es
             else if e = CHR ''t'' then scan_string (acc @ [CHR 0x09]) es
             else if e = CHR ''b'' then scan_string (acc @ [CHR 0x08]) es
             else if e = CHR ''f'' then scan_string (acc @ [CHR 0x0C]) es
             else if e = CHR ''u'' then
               (case es of
                  a # b # h # l # rest \<Rightarrow>
                    (case (hex_value a, hex_value b, hex_value h, hex_value l) of
                       (Some 0, Some 0, Some x, Some y) \<Rightarrow>
                         scan_string (acc @ [char_of (16 * x + y)]) rest
                     | _ \<Rightarrow> None)
                | _ \<Rightarrow> None)
             else None)
      else if (of_char c :: nat) < 32 then None
      else scan_string (acc @ [c]) cs)"

fun parse_value :: "nat \<Rightarrow> string \<Rightarrow> (pyval \<times> string) option"
  and parse_elements :: "nat \<Rightarrow> pyval list \<Rightarrow> string \<Rightarrow> (pyval list \<times> string) option"
  and parse_members ::
    "nat \<Rightarrow> (string \<times> pyval) list \<Rightarrow> string \<Rightarrow> ((string \<times> pyval) list \<times> string) option" where
  "parse_value 0 s = None"
| "parse_value (Suc fuel) s =
     (case dropWhile json_space s of
        [] \<Rightarrow> None
      | c # cs \<Rightarrow>
          if c = CHR 0x22 then map_option (\<lambda>(t, r). (PStr t, r)) (scan_string [] cs)
          else if c = CHR ''['' then
            (case dropWhile json_space cs of
               d # ds \<Rightarrow> if d = CHR '']'' then Some (PList [], ds)
                         else map_option (\<lambda>(vs, r). (PList vs, r)) (parse_elements fuel [] cs)
             | [] \<Rightarrow> None)
          else if c = CHR ''{'' then
            (case dropWhile json_space cs of
               d # ds \<Rightarrow> if d = CHR ''}'' then Some (PDict [], ds)
                         else map_option (\<lambda>(kvs, r). (PDict kvs, r)) (parse_members fuel [] cs)
             | [] \<Rightarrow> None)
          else None)"
| "parse_elements 0 acc s = None"
| "parse_elements (Suc fuel) acc s =
     (case parse_value fuel s of
        None \<Rightarrow> None
      | Some (v, r) \<Rightarrow>
          (case dropWhile json_space r of
             d # ds \<Rightarrow> if d = CHR '','' then parse_elements fuel (acc @ [v]) ds
                       else if d = CHR '']'' then Some (acc @ [v], ds)
                       else None
           | [] \<Rightarrow> None))"
| "parse_members 0 acc s = None"
| "parse_members (Suc fuel) acc s =
     (case dropWhile json_space s of
        q # qs \<Rightarrow>
          if q = CHR 0x22 then
            (case scan_string [] qs of
               None \<Rightarrow> None
             | Some (k, r) \<Rightarrow>
                 (case dropWhile json_space r of
                    c # cs \<Rightarrow>
                      if c = CHR '':'' then
                        (case parse_value fuel cs of
                           None \<Rightarrow> None
                         | Some (v, r') \<Rightarrow>
                             (case dropWhile json_space r' of
                                d # ds \<Rightarrow>
                                  if d = CHR '','' then parse_members fuel (dict_set k v acc) ds
                                  else if d = CHR ''}'' then Some (dict_set k v acc, ds)
                                  else None
                              | [] \<Rightarrow> None))
                      else None
                  | [] \<Rightarrow> None))
          else None
      | [] \<Rightarrow> None)"

definition json_loads_py :: "string \<Rightarrow> exn + pyval" where
  "json_loads_py s =
     (case parse_value (Suc (length s)) s of
        None \<Rightarrow> Inl (JSONDecodeError ''Expecting value'')
      | Some (v, r) \<Rightarrow>
          if dropWhile json_space r = [] then Inr v else Inl (JSONDecodeError ''Extra data''))"

text \<open>
  A Python dictionary holds each key once: \<open>distinct_keys\<close> says so of every
  dictionary inside a value. \<open>need\<close> bounds the depth of recursion the parser needs
  for the text of a value, and \<open>dumps_member\<close> is the text of one entry of a dictionary.
\<close>

fun distinct_keys :: "pyval \<Rightarrow> bool" where
  "distinct_keys (PStr s) = True"
| "distinct_keys (PList vs) = (\<forall>v\<in>set vs. distinct_keys v)"
| "distinct_keys (PDict kvs) =
     (distinct (map fst kvs) \<and> (\<forall>kv\<in>set kvs. distinct_keys (snd kv)))"

fun need :: "pyval \<Rightarrow> nat" where
  "need (PStr s) = 1"
| "need (PList vs) = 1 + sum_list (map (\<lambda>v. 1 + need v) vs)"
| "need (PDict kvs) = 1 + sum_list (map (\<lambda>kv. 1 + need (snd kv)) kvs)"

definition dumps_member :: "bool \<Rightarrow> string \<times> pyval \<Rightarrow> string" where
  "dumps_member b kv = dumps_str b (fst kv) @ '': '' @ json_dumps_py b (snd kv)"


section \<open>Properties of the request executor\<close>

lemma request_loop_failed_prefix:
  assumes "\<forall>a\<in>set as. \<exists>m. send a = Inl (RequestError m)"
  shows "request_loop c send st now (as @ rest) l tr =
         request_loop c send st now rest (last_failure send as l)
           (tr @ concat (map (failed_attempt c) as))"
  using assms
proof (induction as arbitrary: l tr)
  case Nil
  then show ?case by (simp add: last_failure_def)
next
  case (Cons a as)
  then obtain m where m: "send a = Inl (RequestError m)" by auto
  have rest: "\<forall>a\<in>set as. \<exists>m. send a = Inl (RequestError m)" using Cons.prems by simp
  show ?case
    using Cons.IH [OF rest] m by (simp add: last_failure_def failed_attempt_def)
qed

lemma last_failure_snoc:
  "send a = Inl e \<Longrightarrow> last_failure send (as @ [a]) l = Some e"
  by (simp add: last_failure_def)

lemma attempts_append: "attempts (xs @ ys) = attempts xs + attempts ys"
  by (simp add: attempts_def)

lemma attempts_failed: "attempts (concat (map (failed_attempt c) as)) = length as"
  by (induction as) (simp_all add: attempts_def failed_attempt_def)

lemma make_request_exhausted:
  assumes R: "0 \<le> max_retries c"
    and fail: "\<forall>a\<in>{0..max_retries c}. \<exists>m. send a = Inl (RequestError m)"
  shows "make_request c send st now =
     (Inl (raise_APIError \<lparr>codigo = 500, mensaje = connection_message,
             detalles = Some (str_exn (projl (send (max_retries c)))), timestamp = now\<rparr>),
      concat (map (failed_attempt c) [0..max_retries c]))"
proof -
  have "max_retries c \<in> {0..max_retries c}" using R by simp
  with fail obtain m where m: "send (max_retries c) = Inl (RequestError m)" by blast
  have split: "[0..max_retries c] = [0..max_retries c - 1] @ [max_retries c]"
    using R by (simp add: upto_rec2)
  have all: "\<forall>a\<in>set [0..max_retries c]. \<exists>m. send a = Inl (RequestError m)"
    using fail by simp
  have lf: "last_failure send [0..max_retries c] None = Some (RequestError m)"
    by (subst split) (simp add: last_failure_snoc m)
  show ?thesis
    unfolding make_request_def
    using request_loop_failed_prefix [OF all, of c st now "[]" None "[]"]
    by (simp add: lf str_last_def m)
qed



lemma make_request_failed_prefix:
  assumes i: "0 \<le> i" "i \<le> max_retries c + 1"
    and fail: "\<forall>a\<in>{0..<i}. \<exists>m. send a = Inl (RequestError m)"
  shows "make_request c send st now =
     request_loop c send st now [i..max_retries c] (last_failure send [0..i - 1] None)
       (concat (map (failed_attempt c) [0..i - 1]))"
proof -
  have split: "[0..max_retries c] = [0..i - 1] @ [i..max_retries c]"
  proof (cases "i \<le> max_retries c")
    case True
    then show ?thesis using i by (simp add: upto_split1)
  next
    case False
    then have "i = max_retries c + 1" using i by simp
    then show ?thesis by simp
  qed
  have all: "\<forall>a\<in>set [0..i - 1]. \<exists>m. send a = Inl (RequestError m)"
    using fail by auto
  show ?thesis
    unfolding make_request_def split
    using request_loop_failed_prefix [OF all, of c st now "[i..max_retries c]" None "[]"]
    by simp
qed

lemma request_loop_trace_head:
  "\<exists>ev. snd (request_loop c send st now (a # as) l tr) = tr @ Request a # ev"
proof (induction as arbitrary: a l tr)
  case Nil
  show ?case
    by (auto simp: raise_for_status_def split: sum.splits exn.splits)
next
  case (Cons b bs)
  show ?case
  proof (cases "\<exists>m. send a = Inl (RequestError m)")
    case True
    then obtain m where m: "send a = Inl (RequestError m)" by blast
    obtain ev where "snd (request_loop c send st now (b # bs) (Some (RequestError m))
        (tr @ [Request a] @
          (if a < max_retries c then [Sleep (retry_delay c * of_int (a + 1))] else []))) =
        (tr @ [Request a] @
          (if a < max_retries c then [Sleep (retry_delay c * of_int (a + 1))] else []))
        @ Request b # ev"
      using Cons.IH by blast
    then show ?thesis using m by simp
  next
    case False
    then show ?thesis
      by (auto simp: raise_for_status_def split: sum.splits exn.splits)
  qed
qed

lemma failed_attempts_backoff:
  assumes "i \<le> max_retries c"
  shows "concat (map (failed_attempt c) [0..i - 1]) =
   concat (map (\<lambda>a. [Request a, Sleep (retry_delay c * of_int (a + 1))]) [0..i - 1])"
proof -
  have "map (failed_attempt c) [0..i - 1] =
      map (\<lambda>a. [Request a, Sleep (retry_delay c * of_int (a + 1))]) [0..i - 1]"
  proof (rule map_cong [OF refl])
    fix a assume "a \<in> set [0..i - 1]"
    then have "a < max_retries c" using assms by simp
    then show "failed_attempt c a = [Request a, Sleep (retry_delay c * of_int (a + 1))]"
      by (simp add: failed_attempt_def)
  qed
  then show ?thesis by (rule arg_cong)
qed

text \<open>
  Claim C8. When the attempts \<open>0, ..., i\<close> all fail with a transient fault and
  \<open>i \<le> max_retries\<close>, every attempt \<open>a < i\<close> is followed by one sleep of
  \<open>retry_delay * (a + 1)\<close>; attempt \<open>i\<close> is followed by a sleep of
  \<open>retry_delay * (i + 1)\<close> and then by attempt \<open>i + 1\<close> when \<open>i < max_retries\<close>, and
  by nothing at all when \<open>i = max_retries\<close>: there is no sleep after the final attempt.
  Delays are exact rationals here, where the program multiplies a float by an integer.
\<close>

theorem C8_linear_backoff:
  assumes i: "0 \<le> i" "i \<le> max_retries c"
    and fail: "\<forall>a\<in>{0..i}. \<exists>m. send a = Inl (RequestError m)"
  shows "\<exists>ev. snd (make_request c send st now) =
     concat (map (\<lambda>a. [Request a, Sleep (retry_delay c * of_int (a + 1))]) [0..i - 1]) @
     Request i #
     (if i < max_retries c
      then Sleep (retry_delay c * of_int (i + 1)) # Request (i + 1) # ev else [])"
proof (cases "i < max_retries c")
  case True
  have f: "\<forall>a\<in>{0..<i + 1}. \<exists>m. send a = Inl (RequestError m)" using fail by auto
  have mk: "make_request c send st now =
     request_loop c send st now [i + 1..max_retries c] (last_failure send [0..i] None)
       (concat (map (failed_attempt c) [0..i]))"
    using make_request_failed_prefix [of "i + 1" c send st now] i True f by simp
  have cons: "[i + 1..max_retries c] = (i + 1) # [i + 1 + 1..max_retries c]"
    using True by (subst upto_rec1) simp_all
  obtain ev where ev: "snd (make_request c send st now) =
      concat (map (failed_attempt c) [0..i]) @ Request (i + 1) # ev"
    unfolding mk cons using request_loop_trace_head by blast
  have "[0..i] = [0..i - 1] @ [i]" using i by (simp add: upto_rec2)
  then have "concat (map (failed_attempt c) [0..i]) =
      concat (map (failed_attempt c) [0..i - 1]) @ [Request i, Sleep (retry_delay c * of_int (i + 1))]"
    using True by (simp add: failed_attempt_def)
  with ev failed_attempts_backoff [of i c] i True show ?thesis by simp
next
  case False
  then have eq: "i = max_retries c" using i by simp
  have R: "0 \<le> max_retries c" using i by simp
  have f: "\<forall>a\<in>{0..max_retries c}. \<exists>m. send a = Inl (RequestError m)"
    using fail eq by simp
  have "[0..i] = [0..i - 1] @ [i]" using i by (simp add: upto_rec2)
  then have "concat (map (failed_attempt c) [0..i]) =
      concat (map (failed_attempt c) [0..i - 1]) @ [Request i]"
    using eq by (simp add: failed_attempt_def)
  with make_request_exhausted [OF R f, of st now] failed_attempts_backoff [of i c] eq
  show ?thesis by simp
qed


text \<open>
  Claim C1. With \<open>max_retries = R \<ge> 0\<close> and every attempt failing with a transient
  fault, the executor calls the backend exactly \<open>R + 1\<close> times, and just once with no
  sleep when \<open>R = 0\<close>. It then executes \<open>raise APIError(codigo=500, ...)\<close> with the
  last fault's text in \<open>detalles\<close>; as \<open>APIError\<close> is not an exception class, what
  the caller receives is a \<open>TypeError\<close> and never an \<open>APIError\<close>.
\<close>

theorem C1_transient_exhaustion:
  assumes R: "0 \<le> max_retries c"
    and fail: "\<forall>a\<in>{0..max_retries c}. \<exists>m. send a = Inl (RequestError m)"
  shows "attempts (snd (make_request c send st now)) = nat (max_retries c) + 1 \<and>
     (max_retries c = 0 \<longrightarrow> snd (make_request c send st now) = [Request 0]) \<and>
     fst (make_request c send st now) =
       Inl (raise_APIError \<lparr>codigo = 500, mensaje = connection_message,
              detalles = Some (str_exn (projl (send (max_retries c)))), timestamp = now\<rparr>) \<and>
     fst (make_request c send st now) =
       Inl (TypeError ''exceptions must derive from BaseException'') \<and>
     (\<forall>e. fst (make_request c send st now) \<noteq> Inl (APIError_raised e))"
proof -
  note mk = make_request_exhausted [OF R fail, of st now]
  have a: "attempts (snd (make_request c send st now)) = nat (max_retries c) + 1"
    using R by (simp add: mk attempts_failed nat_add_distrib)
  have z: "max_retries c = 0 \<longrightarrow> snd (make_request c send st now) = [Request 0]"
    by (simp add: mk failed_attempt_def)
  show ?thesis
    using a z by (simp add: mk raise_APIError_def)
qed

text \<open>One attempt, no retry allowed, a backend that always times out.\<close>

theorem C1_transient_exhaustion_witness:
  "0 \<le> max_retries \<lparr>timeout = 30, max_retries = 0, retry_delay = 1\<rparr> \<and>
   make_request \<lparr>timeout = 30, max_retries = 0, retry_delay = 1\<rparr>
     (\<lambda>a. Inl (RequestError ''timed out'')) (\<lambda>r. ''status'') 0 =
   (Inl (TypeError ''exceptions must derive from BaseException''), [Request 0])"
  using C1_transient_exhaustion [of "\<lparr>timeout = 30, max_retries = 0, retry_delay = 1\<rparr>"
      "\<lambda>a. Inl (RequestError ''timed out'')" "\<lambda>r. ''status''" 0]
  by (simp add: prod_eq_iff raise_APIError_def)

text \<open>
  Claim C2. When attempt \<open>i\<close> is the first that gets a response and its status is outside
  200..299, that attempt is the last one: the run made \<open>i + 1\<close> calls, whatever
  \<open>max_retries\<close> allows. The executor then executes
  \<open>raise APIError(codigo=status, ...)\<close> with the text of the status error in
  \<open>detalles\<close>; as \<open>APIError\<close> is not an exception class, what the caller receives is
  a \<open>TypeError\<close> and never an \<open>APIError\<close>.
\<close>

theorem C2_http_status_error:
  assumes i: "0 \<le> i" "i \<le> max_retries c"
    and fail: "\<forall>a\<in>{0..<i}. \<exists>m. send a = Inl (RequestError m)"
    and resp: "send i = Inr r"
    and bad: "\<not> (200 \<le> status_code r \<and> status_code r \<le> 299)"
  shows "snd (make_request c send st now) =
       concat (map (\<lambda>a. [Request a, Sleep (retry_delay c * of_int (a + 1))]) [0..i - 1]) @
       [Request i] \<and>
     attempts (snd (make_request c send st now)) = nat i + 1 \<and>
     fst (make_request c send st now) =
       Inl (raise_APIError \<lparr>codigo = status_code r,
              mensaje = ''Error HTTP '' @ str_int (status_code r),
              detalles = Some (st r), timestamp = now\<rparr>) \<and>
     fst (make_request c send st now) =
       Inl (TypeError ''exceptions must derive from BaseException'') \<and>
     (\<forall>e. fst (make_request c send st now) \<noteq> Inl (APIError_raised e))"
proof -
  have i': "i \<le> max_retries c + 1" using i by simp
  have cons: "[i..max_retries c] = i # [i + 1..max_retries c]"
    using i by (subst upto_rec1) simp_all
  have mk: "make_request c send st now =
      (Inl (raise_APIError \<lparr>codigo = status_code r,
              mensaje = ''Error HTTP '' @ str_int (status_code r),
              detalles = Some (st r), timestamp = now\<rparr>),
       concat (map (failed_attempt c) [0..i - 1]) @ [Request i])"
    unfolding make_request_failed_prefix [OF i(1) i' fail] cons
    using resp bad by (simp add: raise_for_status_def)
  have one: "attempts [Request i] = 1" by (simp add: attempts_def)
  have a: "attempts (snd (make_request c send st now)) = nat i + 1"
    using i by (simp add: mk attempts_append attempts_failed one)
  show ?thesis
    using a failed_attempts_backoff [OF i(2)] by (simp add: mk raise_APIError_def)
qed

text \<open>A backend that answers 404 is called once, with three retries allowed.\<close>

theorem C2_http_status_error_witness:
  "(0::int) \<le> 0 \<and> 0 \<le> max_retries \<lparr>timeout = 30, max_retries = 3, retry_delay = 1\<rparr> \<and>
   \<not> (200 \<le> status_code \<lparr>status_code = 404, resp_text = ''Not Found''\<rparr> \<and>
      status_code \<lparr>status_code = 404, resp_text = ''Not Found''\<rparr> \<le> 299) \<and>
   make_request \<lparr>timeout = 30, max_retries = 3, retry_delay = 1\<rparr>
     (\<lambda>a. Inr \<lparr>status_code = 404, resp_text = ''Not Found''\<rparr>) (\<lambda>r. ''status'') 0 =
   (Inl (TypeError ''exceptions must derive from BaseException''), [Request 0])"
  using C2_http_status_error [of 0 "\<lparr>timeout = 30, max_retries = 3, retry_delay = 1\<rparr>"
      "\<lambda>a. Inr \<lparr>status_code = 404, resp_text = ''Not Found''\<rparr>"
      "\<lparr>status_code = 404, resp_text = ''Not Found''\<rparr>" "\<lambda>r. ''status''" 0]
  by (simp add: prod_eq_iff raise_APIError_def)

text \<open>Two retries allowed, a base delay of 1.5 seconds, a backend that always times out.\<close>

theorem C8_linear_backoff_witness:
  "(0::int) \<le> 1 \<and> 1 \<le> max_retries \<lparr>timeout = 30, max_retries = 2, retry_delay = 3 / 2\<rparr> \<and>
   (\<exists>ev. snd (make_request \<lparr>timeout = 30, max_retries = 2, retry_delay = 3 / 2\<rparr>
       (\<lambda>a. Inl (RequestError ''timed out'')) (\<lambda>r. ''status'') 0) =
     [Request 0, Sleep (3 / 2), Request 1, Sleep 3, Request 2] @ ev)"
  using C8_linear_backoff [of 1 "\<lparr>timeout = 30, max_retries = 2, retry_delay = 3 / 2\<rparr>"
      "\<lambda>a. Inl (RequestError ''timed out'')" "\<lambda>r. ''status''" 0]
  by (simp add: upto_rec1)

section \<open>Properties of the query builder\<close>

lemma query_json_shape:
  "query_json a b c d e df dt =
     PDict [(''query'', PDict ((''query_string'',
         PDict [(''query'', PStr (join '' AND '' (query_parts a b c d e)))]) #
       (if truthy df \<or> truthy dt
        then [(''range'', PDict [(''fecha_publicacion'',
                PDict ((if truthy df then [(''gte'', PStr (the df))] else []) @
                       (if truthy dt then [(''lte'', PStr (the dt))] else [])))])]
        else [])))]"
  by (simp add: query_json_def date_range_def Let_def)

text \<open>
  Claim C9. With no filter at all the builder serializes the query whose query string is
  empty; with only the department code 7723 and the legal range code 1300 the query string
  is the two terms joined by \<open>AND\<close>; and the \<open>range\<close> entry is there exactly when a
  date bound is supplied (not \<open>None\<close> and not empty), holding \<open>gte\<close> and \<open>lte\<close> for
  the bounds supplied and nothing else.
\<close>

theorem C9_query_builder:
  "build_search_query json_dumps None None None None None None None =
     json_dumps (PDict [(''query'', PDict [(''query_string'', PDict [(''query'', PStr [])])])]) \<and>
   query_parts None None (Some ''7723'') (Some ''1300'') None =
     [''departamento@codigo:7723'', ''rango@codigo:1300''] \<and>
   build_search_query json_dumps None None (Some ''7723'') (Some ''1300'') None None None =
     json_dumps (PDict [(''query'', PDict [(''query_string'',
        PDict [(''query'', PStr ''departamento@codigo:7723 AND rango@codigo:1300'')])])]) \<and>
   build_search_query json_dumps a b c d e df dt =
     json_dumps (PDict [(''query'', PDict ((''query_string'',
         PDict [(''query'', PStr (join '' AND '' (query_parts a b c d e)))]) #
       (if truthy df \<or> truthy dt
        then [(''range'', PDict [(''fecha_publicacion'',
                PDict ((if truthy df then [(''gte'', PStr (the df))] else []) @
                       (if truthy dt then [(''lte'', PStr (the dt))] else [])))])]
        else [])))])"
proof -
  have parts: "query_parts None None (Some ''7723'') (Some ''1300'') None =
     [''departamento@codigo:7723'', ''rango@codigo:1300'']"
    by (simp add: query_parts_def truthy_def)
  have none: "query_parts None None None None None = []"
    by (simp add: query_parts_def truthy_def)
  show ?thesis
    unfolding build_search_query_def query_json_shape
    by (simp add: parts none truthy_def)
qed

text \<open>The text returned when no filter is given, with the serializer of the instance.\<close>

lemma build_search_query_no_filter:
  "build_search_query (json_dumps_py False) None None None None None None None =
     [CHR ''{'', CHR 0x22] @ ''query'' @ [CHR 0x22] @ '': {'' @ [CHR 0x22] @ ''query_string'' @
     [CHR 0x22] @ '': {'' @ [CHR 0x22] @ ''query'' @ [CHR 0x22] @ '': '' @
     [CHR 0x22, CHR 0x22] @ ''}}}''"
  by code_simp

section \<open>Properties of the response normalizer\<close>

text \<open>
  Claim C5. A payload that \<open>json.loads\<close> rejects under the JSON format does not end in
  the parse-failure \<open>APIError\<close>: the \<open>except\<close> clause names \<open>etree\<close>, which is
  unbound on that path, and an \<open>UnboundLocalError\<close> propagates. A payload that
  \<open>etree.fromstring\<close> rejects under the XML format reaches
  \<open>raise APIError(codigo=500, ...)\<close>, which fails with a \<open>TypeError\<close> since
  \<open>APIError\<close> is not an exception class.
\<close>

theorem C5_parse_failure:
  "(json_loads (resp_text r) = Inl (JSONDecodeError mj) \<longrightarrow>
      parse_response json_loads fromstring now r ''application/json'' =
        Inl (UnboundLocalError ''etree'')) \<and>
   (fromstring (resp_text r) = Inl (XMLSyntaxError m) \<longrightarrow>
      parse_response json_loads fromstring now r ''application/xml'' =
        Inl (raise_APIError \<lparr>codigo = 500, mensaje = parse_error_message,
               detalles = Some m, timestamp = now\<rparr>) \<and>
      parse_response json_loads fromstring now r ''application/xml'' =
        Inl (TypeError ''exceptions must derive from BaseException''))"
  by (simp add: parse_response_def except_clause_def raise_APIError_def)

text \<open>The payload \<open>{\<close> under each format, with parsers that reject it.\<close>

theorem C5_parse_failure_witness:
  "parse_response (\<lambda>s. Inl (JSONDecodeError ''Expecting property name''))
     (\<lambda>s. Inl (XMLSyntaxError ''Start tag expected'')) 0
     \<lparr>status_code = 200, resp_text = ''{''\<rparr> ''application/json'' =
     Inl (UnboundLocalError ''etree'') \<and>
   parse_response (\<lambda>s. Inl (JSONDecodeError ''Expecting property name''))
     (\<lambda>s. Inl (XMLSyntaxError ''Start tag expected'')) 0
     \<lparr>status_code = 200, resp_text = ''{''\<rparr> ''application/xml'' =
     Inl (TypeError ''exceptions must derive from BaseException'')"
  using C5_parse_failure [where json_loads = "\<lambda>s. Inl (JSONDecodeError ''Expecting property name'')"
      and r = "\<lparr>status_code = 200, resp_text = ''{''\<rparr>" and mj = "''Expecting property name''"
      and fromstring = "\<lambda>s. Inl (XMLSyntaxError ''Start tag expected'')"
      and m = "''Start tag expected''" and now = 0]
  by (simp add: raise_APIError_def)

section \<open>Properties of the XML conversion\<close>

lemma map_of_dict_set: "map_of (dict_set k v d) k' = (if k' = k then Some v else map_of d k')"
  by (induction d) auto


lemma fold_dict_set_lookup:
  "distinct (map fst e) \<Longrightarrow>
   map_of (fold (\<lambda>(k, v) acc. dict_set k v acc) e d) k =
     (case map_of e k of Some v \<Rightarrow> Some v | None \<Rightarrow> map_of d k)"
proof (induction e arbitrary: d)
  case Nil
  then show ?case by simp
next
  case (Cons p e)
  obtain k' v' where p: "p = (k', v')" by (cases p)
  from Cons.prems p have notin: "k' \<notin> fst ` set e" and dist: "distinct (map fst e)" by auto
  from notin have none: "map_of e k' = None" by (simp add: map_of_eq_None_iff)
  show ?case
    using Cons.IH [OF dist, of "dict_set k' v' d"] none
    by (auto simp: p map_of_dict_set split: option.splits)
qed

lemma keys_dict_set: "fst ` set (dict_set k v d) = insert k (fst ` set d)"
proof (induction d)
  case Nil
  show ?case by simp
next
  case (Cons p d)
  obtain k' v' where p: "p = (k', v')" by (cases p)
  show ?case
  proof (cases "k' = k")
    case True
    then show ?thesis by (simp add: p)
  next
    case False
    then show ?thesis by (simp add: p Cons.IH insert_commute)
  qed
qed

lemma distinct_dict_set: "distinct (map fst d) \<Longrightarrow> distinct (map fst (dict_set k v d))"
proof (induction d)
  case Nil
  then show ?case by simp
next
  case (Cons p d)
  obtain k' v' where p: "p = (k', v')" by (cases p)
  show ?case
  proof (cases "k' = k")
    case True
    with Cons.prems show ?thesis by (simp add: p)
  next
    case False
    with Cons show ?thesis by (simp add: p keys_dict_set)
  qed
qed

lemma distinct_add_child: "distinct (map fst d) \<Longrightarrow> distinct (map fst (add_child t v d))"
  by (auto simp: add_child_def distinct_dict_set split: option.splits pyval.splits)

lemma map_of_add_child:
  "map_of (add_child t v d) k =
     (if k = t
      then Some (case map_of d t of None \<Rightarrow> v
                 | Some (PList vs) \<Rightarrow> PList (vs @ [v])
                 | Some w \<Rightarrow> PList [w, v])
      else map_of d k)"
  by (auto simp: add_child_def map_of_dict_set split: option.splits pyval.splits)

lemma xml_to_dict_not_list: "xml_to_dict e \<noteq> PList vs"
  by (cases e) (simp add: Let_def)

lemma children_loop_distinct:
  "distinct (map fst (fold (\<lambda>child d. add_child (tag child) (xml_to_dict child) d) cs []))"
proof (induction cs rule: rev_induct)
  case Nil
  then show ?case by simp
next
  case (snoc c cs)
  then show ?case by (simp add: distinct_add_child)
qed

lemma grouped_snoc:
  assumes "\<forall>v\<in>set vs. \<forall>ws. v \<noteq> PList ws"
  shows "grouped (vs @ [v]) =
     Some (case grouped vs of None \<Rightarrow> v
           | Some (PList ws) \<Rightarrow> PList (ws @ [v])
           | Some w \<Rightarrow> PList [w, v])"
proof (cases vs)
  case Nil
  then show ?thesis by (simp add: grouped_def)
next
  case (Cons a as)
  show ?thesis
  proof (cases as)
    case Nil
    with Cons assms show ?thesis by (cases a) (simp_all add: grouped_def)
  next
    case (Cons b bs)
    with \<open>vs = a # as\<close> show ?thesis
      by (simp add: grouped_def split: list.splits)
  qed
qed

lemma children_loop_lookup:
  "map_of (fold (\<lambda>child d. add_child (tag child) (xml_to_dict child) d) cs []) t =
     grouped (occurrences t cs)"
proof (induction cs rule: rev_induct)
  case Nil
  then show ?case by (simp add: grouped_def occurrences_def)
next
  case (snoc c cs)
  let ?d = "fold (\<lambda>child d. add_child (tag child) (xml_to_dict child) d) cs []"
  have step: "fold (\<lambda>child d. add_child (tag child) (xml_to_dict child) d) (cs @ [c]) [] =
      add_child (tag c) (xml_to_dict c) ?d"
    by simp
  have nl: "\<forall>v\<in>set (occurrences t cs). \<forall>ws. v \<noteq> PList ws"
    by (auto simp: occurrences_def xml_to_dict_not_list)
  show ?case
  proof (cases "t = tag c")
    case True
    have occ: "occurrences t (cs @ [c]) = occurrences t cs @ [xml_to_dict c]"
      unfolding occurrences_def True by simp
    have "map_of (add_child (tag c) (xml_to_dict c) ?d) t =
        Some (case map_of ?d t of None \<Rightarrow> xml_to_dict c
                 | Some (PList vs) \<Rightarrow> PList (vs @ [xml_to_dict c])
                 | Some w \<Rightarrow> PList [w, xml_to_dict c])"
      unfolding map_of_add_child True by simp
    also have "\<dots> = grouped (occurrences t cs @ [xml_to_dict c])"
      unfolding snoc.IH grouped_snoc [OF nl] ..
    finally show ?thesis unfolding step occ .
  next
    case False
    have occ: "occurrences t (cs @ [c]) = occurrences t cs"
      unfolding occurrences_def using False by simp
    have "map_of (add_child (tag c) (xml_to_dict c) ?d) t = map_of ?d t"
      unfolding map_of_add_child using False by simp
    then show ?thesis unfolding step occ snoc.IH .
  qed
qed

lemma occurrences_nonempty: "t \<in> tag ` set cs \<Longrightarrow> occurrences t cs \<noteq> []"
  by (auto simp: occurrences_def filter_empty_conv)

lemma grouped_nonempty: "vs \<noteq> [] \<Longrightarrow> grouped vs \<noteq> None"
  by (auto simp: grouped_def split: list.splits)


lemma xml_to_dict_children_lookup:
  assumes cs: "cs \<noteq> []" and t: "t \<in> tag ` set cs"
    and tx: "t \<noteq> ''text'' \<or> tx = None \<or> strip (the tx) = []"
  shows "\<exists>d. xml_to_dict (Element tg attrs tx cs) = PDict d \<and>
             map_of d t = grouped (occurrences t cs)"
proof -
  let ?result = "fold (\<lambda>(key, val) r. dict_set (CHR ''@'' # key) (PStr val) r) attrs []"
  let ?cd = "fold (\<lambda>child d. add_child (tag child) (xml_to_dict child) d) cs []"
  let ?cd' = "case tx of None \<Rightarrow> ?cd
      | Some s \<Rightarrow> if s \<noteq> [] \<and> strip s \<noteq> [] then dict_set ''text'' (PStr (strip s)) ?cd else ?cd"
  have eq: "xml_to_dict (Element tg attrs tx cs) = PDict (dict_update ?result ?cd')"
    using cs by (simp add: Let_def)
  have dist: "distinct (map fst ?cd')"
    by (simp add: children_loop_distinct distinct_dict_set split: option.splits)
  have same: "map_of ?cd' t = map_of ?cd t"
    using tx by (auto simp: map_of_dict_set split: option.splits)
  have some: "grouped (occurrences t cs) \<noteq> None"
    using t by (intro grouped_nonempty occurrences_nonempty)
  have "map_of (dict_update ?result ?cd') t =
      (case map_of ?cd' t of Some v \<Rightarrow> Some v | None \<Rightarrow> map_of ?result t)"
    unfolding dict_update_def by (rule fold_dict_set_lookup [OF dist])
  also have "\<dots> = grouped (occurrences t cs)"
    unfolding same children_loop_lookup using some by (auto split: option.splits)
  finally show ?thesis using eq by blast
qed

lemma strip_digit [simp]: "strip ''1'' = ''1''" "strip ''2'' = ''2''" "strip ''hi'' = ''hi''"
  by (simp_all add: strip_def isspace_def)

text \<open>
  Claim C3, as the code has it. The conversion of the root element is returned as it is,
  not wrapped under the root's tag: \<open><a><b>1</b><b>2</b></a>\<close> becomes the dictionary
  with the single key \<open>b\<close> holding the list of \<open>1\<close> and \<open>2\<close>, and
  \<open><a><b>1</b><c>2</c></a>\<close> the dictionary with \<open>b\<close> holding \<open>1\<close> and \<open>c\<close>
  holding \<open>2\<close>. In general, for an element with children, every tag \<open>t\<close> among them
  (other than \<open>text\<close> when the element has text of its own) maps to the conversion of
  the one child with that tag, or to the list, in document order, of the conversions of
  all children with that tag when there are several.
\<close>

theorem C3_xml_normalization:
  "xml_to_dict (Element ''a'' [] None
      [Element ''b'' [] (Some ''1'') [], Element ''b'' [] (Some ''2'') []]) =
     PDict [(''b'', PList [PStr ''1'', PStr ''2''])] \<and>
   xml_to_dict (Element ''a'' [] None
      [Element ''b'' [] (Some ''1'') [], Element ''c'' [] (Some ''2'') []]) =
     PDict [(''b'', PStr ''1''), (''c'', PStr ''2'')] \<and>
   (fromstring (resp_text r) = Inr e \<longrightarrow>
      parse_response json_loads fromstring now r ''application/xml'' = Inr (xml_to_dict e)) \<and>
   (cs \<noteq> [] \<and> t \<in> tag ` set cs \<and> (t \<noteq> ''text'' \<or> tx = None \<or> strip (the tx) = []) \<longrightarrow>
      (\<exists>d. xml_to_dict (Element tg attrs tx cs) = PDict d \<and>
           map_of d t = grouped (occurrences t cs)))"
proof -
  have one: "xml_to_dict (Element ''a'' [] None
      [Element ''b'' [] (Some ''1'') [], Element ''b'' [] (Some ''2'') []]) =
     PDict [(''b'', PList [PStr ''1'', PStr ''2''])]"
    by (simp add: add_child_def dict_update_def)
  have two: "xml_to_dict (Element ''a'' [] None
      [Element ''b'' [] (Some ''1'') [], Element ''c'' [] (Some ''2'') []]) =
     PDict [(''b'', PStr ''1''), (''c'', PStr ''2'')]"
    by (simp add: add_child_def dict_update_def)
  have three: "fromstring (resp_text r) = Inr e \<longrightarrow>
      parse_response json_loads fromstring now r ''application/xml'' = Inr (xml_to_dict e)"
    by (simp add: parse_response_def)
  show ?thesis
    using one two three xml_to_dict_children_lookup [of cs t tx tg attrs] by blast
qed

text \<open>The tag \<open>b\<close> of \<open><a><b>1</b><b>2</b></a>\<close>.\<close>

theorem C3_xml_normalization_witness:
  "\<exists>d. xml_to_dict (Element ''a'' [] None
      [Element ''b'' [] (Some ''1'') [], Element ''b'' [] (Some ''2'') []]) = PDict d \<and>
     map_of d ''b'' = Some (PList [PStr ''1'', PStr ''2''])"
proof -
  have g: "grouped (occurrences ''b''
      [Element ''b'' [] (Some ''1'') [], Element ''b'' [] (Some ''2'') []]) =
      Some (PList [PStr ''1'', PStr ''2''])"
    by (simp add: grouped_def occurrences_def)
  show ?thesis
    using C3_xml_normalization [where cs = "[Element ''b'' [] (Some ''1'') [],
        Element ''b'' [] (Some ''2'') []]" and t = "''b''" and tx = None and tg = "''a''"
        and attrs = "[]"]
    by (simp add: g)
qed

text \<open>
  Claim C3, as the specification states it, fails on both of its examples: the first
  result has the key \<open>b\<close> at the top and no key \<open>a\<close>, and the second is the bare
  string \<open>hi\<close>, the attribute \<open>x\<close> being dropped.
\<close>

theorem C3_xml_root_and_attributes_counterexample:
  "parse_response (\<lambda>s. Inl (JSONDecodeError []))
     (\<lambda>s. Inr (Element ''a'' [] None
        [Element ''b'' [] (Some ''1'') [], Element ''b'' [] (Some ''2'') []])) 0
     \<lparr>status_code = 200, resp_text = ''<a><b>1</b><b>2</b></a>''\<rparr> ''application/xml'' =
     Inr (PDict [(''b'', PList [PStr ''1'', PStr ''2''])]) \<and>
   xml_to_dict (Element ''a'' [] None
      [Element ''b'' [] (Some ''1'') [], Element ''b'' [] (Some ''2'') []]) \<noteq>
     PDict [(''a'', PDict [(''b'', PList [PStr ''1'', PStr ''2''])])] \<and>
   xml_to_dict (Element ''a'' [(''x'', ''1'')] (Some ''hi'') []) = PStr ''hi'' \<and>
   xml_to_dict (Element ''a'' [(''x'', ''1'')] (Some ''hi'') []) \<noteq>
     PDict [(''a'', PDict [(''@x'', PStr ''1''), (''text'', PStr ''hi'')])]"
  by (simp add: add_child_def dict_update_def parse_response_def)

section \<open>Properties of the result validator\<close>

lemma contains_sublist: "contains b a \<longleftrightarrow> sublist a b"
proof (induction b)
  case Nil
  show ?case by auto
next
  case (Cons c cs)
  have "prefix a (c # cs) \<longleftrightarrow> take (length a) (c # cs) = a"
    by (metis append_eq_conv_conj prefix_def take_is_prefix)
  then show ?case
    using Cons by (simp add: sublist_Cons_right)
qed

lemma of_char_bound: "(of_char c :: nat) < 256"
proof -
  have "(of_char c :: nat) mod 256 = of_char c" by simp
  then show ?thesis by (metis mod_less_divisor zero_less_numeral)
qed

lemma isspace_lower_char: "isspace (lower_char c) = isspace c"
  using of_char_bound [of c]
  by (auto simp: isspace_def lower_char_def Let_def)

lemma split_acc_lower:
  "split_acc (lower w) (lower cs) = map lower (split_acc w cs)"
proof (induction cs arbitrary: w)
  case Nil
  show ?case by (simp add: lower_def)
next
  case (Cons c cs)
  show ?case
  proof (cases "isspace c")
    case True
    then show ?thesis
      using Cons [of "[]"] by (simp add: lower_def isspace_lower_char)
  next
    case False
    then show ?thesis
      using Cons [of "w @ [c]"] by (simp add: lower_def isspace_lower_char)
  qed
qed

lemma split_lower: "split (lower s) = tokens s"
  using split_acc_lower [of "[]" s] by (simp add: split_def tokens_def lower_def)

lemma match_found_ex:
  "match_found ts title identifier =
     list_ex (\<lambda>tok. sublist tok title \<or> sublist tok identifier) ts"
  by (induction ts) (auto simp: contains_sublist)

lemma match_found_is_matching:
  "match_found (split (lower s)) (lower (get_or (titulo r) [])) (lower (get_or (identificador r) []))
     = is_matching s r"
  by (simp add: match_found_ex is_matching_def split_lower)

lemma check_results_fields:
  "search_text (check_results ts rs v) = search_text v \<and>
   total_results (check_results ts rs v) = total_results v \<and>
   confidence (check_results ts rs v) = confidence v \<and>
   likely_incorrect (check_results ts rs v) = likely_incorrect v"
  by (induction rs arbitrary: v) (simp_all add: Let_def)

lemma check_results_matching:
  "matching_results (check_results ts rs v) =
     matching_results v +
     length (filter (\<lambda>r. match_found ts (lower (get_or (titulo r) []))
                                         (lower (get_or (identificador r) []))) rs)"
  by (induction rs arbitrary: v) (simp_all add: Let_def)

lemma check_results_mismatched:
  "mismatched_titles (check_results ts rs v) =
     mismatched_titles v @
     map (\<lambda>r. get_or (titulo r) sin_titulo)
       (filter (\<lambda>r. \<not> match_found ts (lower (get_or (titulo r) []))
                                       (lower (get_or (identificador r) []))) rs)"
  by (induction rs arbitrary: v) (simp_all add: Let_def)


lemma validate_matching:
  "matching_results (validate_search_results s rs) = length (filter (is_matching s) rs)"
  by (simp add: validate_search_results_def Let_def check_results_matching
      match_found_is_matching)

lemma validate_total: "total_results (validate_search_results s rs) = length rs"
  by (simp add: validate_search_results_def Let_def check_results_fields)

lemma validate_confidence:
  "confidence (validate_search_results s rs) =
     (if rs = [] then 0
      else of_nat (length (filter (is_matching s) rs)) / of_nat (length rs))"
  by (simp add: validate_search_results_def Let_def check_results_fields
      check_results_matching match_found_is_matching)

lemma validate_likely_incorrect:
  "likely_incorrect (validate_search_results s rs) =
     (rs \<noteq> [] \<and> confidence (validate_search_results s rs) < 3 / 10)"
  by (simp add: validate_search_results_def Let_def check_results_fields
      check_results_matching match_found_is_matching)

text \<open>
  Claim C7. Splitting the lowercased search text gives the whitespace-separated words of
  the text, each in lower case. The results counted as matching are those for which some
  token is a substring of the lowercased title or of the lowercased identifier, and
  \<open>mismatched_titles\<close> lists, in input order, the titles of the other results (the
  placeholder \<open>Sin titulo\<close> standing for a title that is absent).
\<close>

theorem C7_matching_and_mismatches:
  "split (lower s) = tokens s \<and>
   matching_results (validate_search_results s rs) = length (filter (is_matching s) rs) \<and>
   mismatched_titles (validate_search_results s rs) =
     map (\<lambda>r. get_or (titulo r) sin_titulo) (filter (\<lambda>r. \<not> is_matching s r) rs)"
  by (simp add: split_lower validate_matching)
     (simp add: validate_search_results_def Let_def check_results_mismatched
        match_found_is_matching)

text \<open>
  Claim C4, as the code has it. For every search text and every list of results:
  \<open>total_results\<close> is the number of results, \<open>matching_results\<close> does not exceed
  it, \<open>confidence\<close> is their quotient when there are results and 0 when there are
  none, and \<open>likely_incorrect\<close> holds exactly when there is at least one result and
  \<open>confidence\<close> is below 0.3.
\<close>

theorem C4_validation_report:
  "total_results (validate_search_results s rs) = length rs \<and>
   matching_results (validate_search_results s rs) \<le> total_results (validate_search_results s rs) \<and>
   confidence (validate_search_results s rs) =
     (if total_results (validate_search_results s rs) > 0
      then of_nat (matching_results (validate_search_results s rs)) /
           of_nat (total_results (validate_search_results s rs))
      else 0) \<and>
   likely_incorrect (validate_search_results s rs) =
     (total_results (validate_search_results s rs) > 0 \<and>
      confidence (validate_search_results s rs) < 3 / 10)"
  unfolding validate_likely_incorrect validate_confidence validate_total validate_matching
  by simp

text \<open>
  Claim C4, as the specification states it, fails for an empty list of results: the
  function returns early, with \<open>confidence\<close> 0 and \<open>likely_incorrect\<close> false.
\<close>

theorem C4_empty_results_counterexample:
  "confidence (validate_search_results ''ley'' []) < 3 / 10 \<and>
   \<not> likely_incorrect (validate_search_results ''ley'' [])"
  by (simp add: validate_search_results_def)

text \<open>One of the examples listed with the validator's contract.\<close>

lemma example_ley_40:
  "validate_search_results ''Ley 40''
     [\<lparr>titulo = Some ''Ley 40/2015 de Regimen Juridico del Sector Publico'',
       identificador = None\<rparr>] =
   \<lparr>search_text = ''Ley 40'', total_results = 1, matching_results = 1, confidence = 1,
    likely_incorrect = False, mismatched_titles = []\<rparr>"
  by (simp add: validate_search_results_def Let_def split_def lower_def lower_char_def
      isspace_def get_or_def char_of_def bit_Suc_0_iff)

section \<open>Properties of the identifier validation\<close>


lemma codes_simps [simp]:
  "codes ''BOE'' = [66, 79, 69]" "codes ''BORME'' = [66, 79, 82, 77, 69]"
  "codes ''-S-'' = [45, 83, 45]" "codes ''-'' = [45]"
  by (simp_all add: codes_def)

lemma codes_append: "codes (a @ b) = codes a @ codes b"
  by (simp add: codes_def)

lemma iter_digit:
  "iter k (rmatch d Digit) (n, s) =
     (if k \<le> length s \<and> list_all d (take k s) then [(n + k, drop k s)] else [])"
proof (induction k arbitrary: n s)
  case 0
  show ?case by simp
next
  case (Suc k)
  show ?case
  proof (cases s)
    case Nil
    then show ?thesis by simp
  next
    case (Cons c cs)
    then show ?thesis using Suc [of "n + 1" cs] by simp
  qed
qed

lemma seq_lit:
  "rmatch d (Seq (Lit l) r) (n, s) \<noteq> [] \<longleftrightarrow>
     take (length l) s = l \<and> rmatch d r (n + length l, drop (length l) s) \<noteq> []"
  by simp

lemma seq_digits:
  "rmatch d (Seq (Rep k k Digit) r) (n, s) \<noteq> [] \<longleftrightarrow>
     k \<le> length s \<and> list_all d (take k s) \<and> rmatch d r (n + k, drop k s) \<noteq> []"
  by (simp add: iter_digit del: rmatch.simps(2))

lemma seq_bol: "rmatch d (Seq Bol r) (0, s) = rmatch d r (0, s)"
  by simp

lemma seq_alt:
  "rmatch d (Seq (Alt a b) r) st \<noteq> [] \<longleftrightarrow>
     rmatch d (Seq a r) st \<noteq> [] \<or> rmatch d (Seq b r) st \<noteq> []"
  by simp

lemma seq_ending:
  "rmatch d (Seq (Rep 1 3 Digit) Eol) (n, w) \<noteq> [] \<longleftrightarrow> ending d w"
proof -
  have "rmatch d (Seq (Rep 1 3 Digit) Eol) (n, w) \<noteq> [] \<longleftrightarrow>
      (\<exists>k\<in>{1..<4}. k \<le> length w \<and> list_all d (take k w) \<and>
          (drop k w = [] \<or> drop k w = [10]))"
    by (simp add: iter_digit del: rmatch.simps(2)) blast
  also have "\<dots> \<longleftrightarrow> ending d w"
  proof -
    have mem: "\<And>k::nat. k \<in> {1..<4} \<longleftrightarrow> 1 \<le> k \<and> k \<le> 3" by auto
    show ?thesis unfolding ending_def Bex_def mem by (simp add: conj_assoc)
  qed
  finally show ?thesis .
qed

lemma validate_computed:
  "validate_boe_identifier d s \<longleftrightarrow> body d (codes ''BOE'') s \<or> body d (codes ''BORME'') s"
  unfolding validate_boe_identifier_def re_match_def pattern_def
    seq_bol seq_alt seq_lit seq_digits seq_ending body_def
  by (simp add: eval_nat_numeral)

lemma body_shaped:
  "body d p s \<longleftrightarrow> shaped d p [] s \<or> shaped d p [10] s"
proof
  assume b: "body d p s"
  then obtain k where k: "1 \<le> k" "k \<le> 3" "k \<le> length (drop (length p + 8) s)"
      "list_all d (take k (drop (length p + 8) s))"
      "drop k (drop (length p + 8) s) = [] \<or> drop k (drop (length p + 8) s) = [10]"
    unfolding body_def ending_def by blast
  let ?y = "take 4 (drop (length p + 3) s)"
  let ?n = "take k (drop (length p + 8) s)"
  let ?r = "drop k (drop (length p + 8) s)"
  have t1: "take (length p) s = p" and t2: "take 3 (drop (length p) s) = codes ''-S-''"
    and t4: "take 1 (drop (length p + 7) s) = codes ''-''"
    using b by (simp_all add: body_def)
  have s1: "s = p @ drop (length p) s"
    using append_take_drop_id [of "length p" s] t1 by simp
  have s2: "drop (length p) s = codes ''-S-'' @ drop (length p + 3) s"
    using append_take_drop_id [of 3 "drop (length p) s"] t2 by (simp add: add.commute)
  have s3: "drop (length p + 3) s = ?y @ drop (length p + 7) s"
    using append_take_drop_id [of 4 "drop (length p + 3) s"] by (simp add: add.commute)
  have s4: "drop (length p + 7) s = codes ''-'' @ drop (length p + 8) s"
    using append_take_drop_id [of 1 "drop (length p + 7) s"] t4 by (simp add: add.commute)
  have s5: "drop (length p + 8) s = ?n @ ?r" by (rule append_take_drop_id [symmetric])
  have eq: "s = p @ codes ''-S-'' @ ?y @ codes ''-'' @ ?n @ ?r"
    by (subst s1, subst s2, subst s3, subst s4, subst s5) (rule refl)
  have ly: "length ?y = 4" using b by (simp add: body_def)
  have dy: "list_all d ?y" using b by (simp add: body_def)
  have ln: "length ?n = k" using k(3) by simp
  have "shaped d p ?r s"
    unfolding shaped_def
  proof (intro exI conjI)
    show "s = p @ codes ''-S-'' @ ?y @ codes ''-'' @ ?n @ ?r" by (rule eq)
    show "length ?y = 4" by (rule ly)
    show "list_all d ?y" by (rule dy)
    show "1 \<le> length ?n" unfolding ln by (rule k(1))
    show "length ?n \<le> 3" unfolding ln by (rule k(2))
    show "list_all d ?n" by (rule k(4))
  qed
  with k(5) show "shaped d p [] s \<or> shaped d p [10] s" by auto
next
  assume "shaped d p [] s \<or> shaped d p [10] s"
  then obtain rest y n where rest: "rest = [] \<or> rest = [10]"
    and s: "s = p @ codes ''-S-'' @ y @ codes ''-'' @ n @ rest"
    and y: "length y = 4" "list_all d y"
    and n: "1 \<le> length n" "length n \<le> 3" "list_all d n"
    unfolding shaped_def by blast
  have e: "ending d (n @ rest)"
    unfolding ending_def using n rest by (intro exI [of _ "length n"]) simp
  show "body d p s"
    unfolding body_def s using y e by simp
qed

lemma form_shaped:
  "identifier_form d s \<longleftrightarrow> shaped d (codes ''BOE'') [] s \<or> shaped d (codes ''BORME'') [] s"
  unfolding identifier_form_def shaped_def append_Nil2 by blast

lemma shaped_newline:
  "shaped d p [10] s \<longleftrightarrow> (\<exists>t. s = t @ [10] \<and> shaped d p [] t)"
proof
  assume "shaped d p [10] s"
  then obtain y n where s: "s = p @ codes ''-S-'' @ y @ codes ''-'' @ n @ [10]"
    and rest: "length y = 4" "list_all d y" "1 \<le> length n" "length n \<le> 3" "list_all d n"
    unfolding shaped_def by blast
  have "s = (p @ codes ''-S-'' @ y @ codes ''-'' @ n) @ [10]" unfolding s by simp
  moreover have "shaped d p [] (p @ codes ''-S-'' @ y @ codes ''-'' @ n)"
    unfolding shaped_def append_Nil2 using rest by blast
  ultimately show "\<exists>t. s = t @ [10] \<and> shaped d p [] t" by blast
next
  assume "\<exists>t. s = t @ [10] \<and> shaped d p [] t"
  then obtain t y n where s: "s = t @ [10]"
    and t: "t = p @ codes ''-S-'' @ y @ codes ''-'' @ n"
    and rest: "length y = 4" "list_all d y" "1 \<le> length n" "length n \<le> 3" "list_all d n"
    unfolding shaped_def append_Nil2 by blast
  have "s = p @ codes ''-S-'' @ y @ codes ''-'' @ n @ [10]" unfolding s t by simp
  then show "shaped d p [10] s" unfolding shaped_def using rest by blast
qed

lemma validate_characterised:
  "validate_boe_identifier d s \<longleftrightarrow>
     identifier_form d s \<or> (\<exists>t. s = t @ [10] \<and> identifier_form d t)"
  unfolding validate_computed body_shaped form_shaped shaped_newline by blast

lemma validate_rejects_law_ids: "\<not> validate_boe_identifier d (codes ''BOE-A-'' @ rest)"
  unfolding validate_computed body_def by (simp add: codes_def)

lemma form_ends_in_digit:
  assumes "identifier_form d s"
  shows "s \<noteq> [] \<and> d (last s)"
proof -
  from assms obtain p y n where s: "s = p @ codes ''-S-'' @ y @ codes ''-'' @ n"
    and n: "1 \<le> length n" "list_all d n"
    unfolding identifier_form_def by blast
  from n(1) have ne: "n \<noteq> []" by auto
  then have "last s = last n" unfolding s by simp
  moreover have "d (last n)" using n(2) ne by (simp add: list_all_iff)
  ultimately show ?thesis using ne s by simp
qed

lemma form_mono:
  assumes "\<And>c. d c \<Longrightarrow> e c" and "identifier_form d s"
  shows "identifier_form e s"
proof -
  from assms(2) obtain p y n where *: "s = p @ codes ''-S-'' @ y @ codes ''-'' @ n"
    "p = codes ''BOE'' \<or> p = codes ''BORME''" "length y = 4" "list_all d y"
    "1 \<le> length n" "length n \<le> 3" "list_all d n"
    unfolding identifier_form_def by blast
  have "list_all e y" "list_all e n" using *(4,7) assms(1) by (auto simp: list_all_iff)
  with * show ?thesis unfolding identifier_form_def by blast
qed


lemma form_example: "identifier_form ascii_digit (codes ''BOE-S-2024-1'')"
proof -
  have "identifier_form ascii_digit
      (codes ''BOE'' @ codes ''-S-'' @ codes ''2024'' @ codes ''-'' @ codes ''1'')"
    unfolding identifier_form_def
    by (intro exI [of _ "codes ''BOE''"] exI [of _ "codes ''2024''"] exI [of _ "codes ''1''"])
       (simp add: codes_def ascii_digit_def)
  then show ?thesis by (simp add: codes_def)
qed

lemma newline_not_form: "\<not> identifier_form ascii_digit (codes ''BOE-S-2024-1'' @ [10])"
proof
  assume "identifier_form ascii_digit (codes ''BOE-S-2024-1'' @ [10])"
  then have "ascii_digit (last (codes ''BOE-S-2024-1'' @ [10]))"
    by (rule form_ends_in_digit [THEN conjunct2])
  then show False by (simp add: ascii_digit_def)
qed

lemma arabic_form:
  assumes "d 1632" "d 1634" "d 1636" "d 49"
  shows "identifier_form d (codes ''BOE-S-'' @ [1634, 1632, 1634, 1636] @ codes ''-1'')"
proof -
  have "identifier_form d
      (codes ''BOE'' @ codes ''-S-'' @ [1634, 1632, 1634, 1636] @ codes ''-'' @ [49])"
    unfolding identifier_form_def
    by (intro exI [of _ "codes ''BOE''"] exI [of _ "[1634, 1632, 1634, 1636]"] exI [of _ "[49]"])
       (simp add: assms)
  then show ?thesis by (simp add: codes_def)
qed

lemma arabic_not_form:
  "\<not> identifier_form ascii_digit (codes ''BOE-S-'' @ [1634, 1632, 1634, 1636] @ codes ''-1'')"
proof
  assume "identifier_form ascii_digit (codes ''BOE-S-'' @ [1634, 1632, 1634, 1636] @ codes ''-1'')"
  then have "validate_boe_identifier ascii_digit
      (codes ''BOE-S-'' @ [1634, 1632, 1634, 1636] @ codes ''-1'')"
    unfolding validate_characterised by blast
  then show False
    unfolding validate_computed body_def by (simp add: codes_def ascii_digit_def)
qed

text \<open>
  Claim C10, as the code has it, for every table \<open>decimal\<close> of the code points that
  \<open>\d\<close> accepts. \<open>validate_boe_identifier\<close> returns true exactly for the strings
  \<open>(BOE|BORME)-S-dddd-d\<close>, \<open>-dd\<close> or \<open>-ddd\<close> whose \<open>d\<close> are code points of the
  table, and for such a string followed by one line feed. It returns false for every
  string that begins with \<open>BOE-A-\<close>, so for every consolidated-law identifier
  \<open>BOE-A-YYYY-NNNNN\<close> such as \<open>BOE-A-2015-10566\<close>, and the check of
  \<open>get_consolidated_law\<close> answers each of them with the invalid-parameter warning
  before any request is sent. The function does not return true exactly for the strings
  of the documented form, four and one to three of the digits \<open>0\<close> to \<open>9\<close>: when the
  table holds these ten digits, every string of that form is accepted, but so is
  \<open>BOE-S-2024-1\<close> followed by a line feed, which is not of that form; and when the
  table holds the Arabic-Indic digits 1632, 1634 and 1636, as that of Unicode does, so
  is \<open>BOE-S-\<close>, these digits as the year 2024, \<open>-1\<close>, which is not of that form
  either.
\<close>

theorem C10_identifier_validation:
  "validate_boe_identifier decimal s =
     (identifier_form decimal s \<or> (\<exists>t. s = t @ [10] \<and> identifier_form decimal t)) \<and>
   \<not> validate_boe_identifier decimal (codes ''BOE-A-'' @ rest) \<and>
   \<not> validate_boe_identifier decimal (codes ''BOE-A-2015-10566'') \<and>
   law_id_validation decimal (codes ''BOE-A-'' @ rest) =
     Some (InvalidParameter (codes ''law_id'') (codes ''BOE-A-'' @ rest)
       (codes ''BOE-A-YYYY-NNNNN'')) \<and>
   ((\<forall>c. ascii_digit c \<longrightarrow> decimal c) \<longrightarrow>
      (identifier_form ascii_digit s \<longrightarrow> validate_boe_identifier decimal s) \<and>
      validate_boe_identifier decimal (codes ''BOE-S-2024-1'' @ [10]) \<and>
      \<not> identifier_form ascii_digit (codes ''BOE-S-2024-1'' @ [10])) \<and>
   (decimal 1632 \<and> decimal 1634 \<and> decimal 1636 \<and> decimal 49 \<longrightarrow>
      validate_boe_identifier decimal
        (codes ''BOE-S-'' @ [1634, 1632, 1634, 1636] @ codes ''-1'') \<and>
      \<not> identifier_form ascii_digit
        (codes ''BOE-S-'' @ [1634, 1632, 1634, 1636] @ codes ''-1''))"
proof -
  have "\<not> validate_boe_identifier decimal (codes ''BOE-A-'' @ codes ''2015-10566'')"
    by (rule validate_rejects_law_ids)
  then have ex: "\<not> validate_boe_identifier decimal (codes ''BOE-A-2015-10566'')"
    by (simp add: codes_def)
  have law: "law_id_validation decimal (codes ''BOE-A-'' @ rest) =
     Some (InvalidParameter (codes ''law_id'') (codes ''BOE-A-'' @ rest)
       (codes ''BOE-A-YYYY-NNNNN''))"
    using validate_rejects_law_ids [of decimal rest] by (simp add: law_id_validation_def)
  have sub: "(\<forall>c. ascii_digit c \<longrightarrow> decimal c) \<longrightarrow>
      (identifier_form ascii_digit s \<longrightarrow> validate_boe_identifier decimal s) \<and>
      validate_boe_identifier decimal (codes ''BOE-S-2024-1'' @ [10]) \<and>
      \<not> identifier_form ascii_digit (codes ''BOE-S-2024-1'' @ [10])"
  proof
    assume a: "\<forall>c. ascii_digit c \<longrightarrow> decimal c"
    then have m: "\<And>x. identifier_form ascii_digit x \<Longrightarrow> identifier_form decimal x"
      by (rule_tac form_mono [of ascii_digit decimal]) auto
    have one: "identifier_form ascii_digit s \<longrightarrow> validate_boe_identifier decimal s"
      unfolding validate_characterised using m by blast
    have two: "validate_boe_identifier decimal (codes ''BOE-S-2024-1'' @ [10])"
      unfolding validate_characterised using m [OF form_example] by blast
    show "(identifier_form ascii_digit s \<longrightarrow> validate_boe_identifier decimal s) \<and>
      validate_boe_identifier decimal (codes ''BOE-S-2024-1'' @ [10]) \<and>
      \<not> identifier_form ascii_digit (codes ''BOE-S-2024-1'' @ [10])"
      using one two newline_not_form by blast
  qed
  have uni: "decimal 1632 \<and> decimal 1634 \<and> decimal 1636 \<and> decimal 49 \<longrightarrow>
      validate_boe_identifier decimal
        (codes ''BOE-S-'' @ [1634, 1632, 1634, 1636] @ codes ''-1'') \<and>
      \<not> identifier_form ascii_digit
        (codes ''BOE-S-'' @ [1634, 1632, 1634, 1636] @ codes ''-1'')"
    unfolding validate_characterised using arabic_form [of decimal] arabic_not_form by blast
  show ?thesis
    using validate_characterised [of decimal s] validate_rejects_law_ids [of decimal rest]
      ex law sub uni
    by blast
qed

text \<open>
  The theorem at the table that holds the digits \<open>0\<close> to \<open>9\<close> and the Arabic-Indic digits
  1632 to 1641: the two strings are accepted and are not of the documented form, and
  \<open>BOE-A-2015-10566\<close> is rejected.
\<close>

theorem C10_identifier_validation_witness:
  "validate_boe_identifier (\<lambda>c. ascii_digit c \<or> (1632 \<le> c \<and> c \<le> 1641))
     (codes ''BOE-S-2024-1'' @ [10]) \<and>
   \<not> identifier_form ascii_digit (codes ''BOE-S-2024-1'' @ [10]) \<and>
   validate_boe_identifier (\<lambda>c. ascii_digit c \<or> (1632 \<le> c \<and> c \<le> 1641))
     (codes ''BOE-S-'' @ [1634, 1632, 1634, 1636] @ codes ''-1'') \<and>
   \<not> identifier_form ascii_digit (codes ''BOE-S-'' @ [1634, 1632, 1634, 1636] @ codes ''-1'') \<and>
   \<not> validate_boe_identifier (\<lambda>c. ascii_digit c \<or> (1632 \<le> c \<and> c \<le> 1641))
     (codes ''BOE-A-2015-10566'')"
proof -
  let ?d = "\<lambda>c. ascii_digit c \<or> (1632 \<le> c \<and> c \<le> 1641)"
  have h1: "\<forall>c. ascii_digit c \<longrightarrow> ?d c" by simp
  have h2: "?d 1632 \<and> ?d 1634 \<and> ?d 1636 \<and> ?d 49" by (simp add: ascii_digit_def)
  show ?thesis
    using C10_identifier_validation [where decimal = ?d and s = "[]" and rest = "[]"] h1 h2
    by blast
qed

section \<open>The instance of the JSON library carries every document through\<close>

lemma char_is: "(of_char c :: nat) = n \<Longrightarrow> c = char_of n"
  by (metis char_of_char)

lemma hex_value_hex_digit: "k < 16 \<Longrightarrow> hex_value (hex_digit k) = Some k"
  by (auto simp: hex_value_def hex_digit_def Let_def)

lemma hex_value_zero: "hex_value CHR ''0'' = Some 0"
  by (simp add: hex_value_def)

lemma scan_plain:
  assumes "c \<noteq> CHR 0x22" "c \<noteq> CHR 0x5C" "\<not> (of_char c :: nat) < 32"
  shows "scan_string acc (c # cs) = scan_string (acc @ [c]) cs"
  using assms by simp

lemma scan_unicode:
  assumes "x < 16" "y < 16"
  shows "scan_string acc (CHR 0x5C # CHR ''u'' # CHR ''0'' # CHR ''0'' # hex_digit x # hex_digit y # cs) =
         scan_string (acc @ [char_of (16 * x + y)]) cs"
  using assms by (simp add: hex_value_hex_digit hex_value_zero)


lemma scan_escape_char:
  "scan_string acc (escape_char b c @ cs) = scan_string (acc @ [c]) cs"
proof -
  let ?n = "of_char c :: nat"
  have lt: "?n < 256" by (rule of_char_bound)
  have c: "c = char_of ?n" by simp
  consider "?n = 34" | "?n = 92" | "?n = 10" | "?n = 13" | "?n = 9" | "?n = 8" | "?n = 12"
    | "?n \<notin> {34, 92, 10, 13, 9, 8, 12}" "?n < 32 \<or> (b \<and> 126 < ?n)"
    | "?n \<notin> {34, 92, 10, 13, 9, 8, 12}" "\<not> (?n < 32 \<or> (b \<and> 126 < ?n))"
    by blast
  then show ?thesis
  proof cases
    case 1
    have "c = CHR 0x22" using char_is [OF 1] by (simp add: char_of_def bit_Suc_0_iff)
    then show ?thesis by (simp add: escape_char_def)
  next
    case 2
    have "c = CHR 0x5C" using char_is [OF 2] by (simp add: char_of_def bit_Suc_0_iff)
    then show ?thesis by (simp add: escape_char_def)
  next
    case 3
    have "c = CHR 0x0A" using char_is [OF 3] by (simp add: char_of_def bit_Suc_0_iff)
    then show ?thesis by (simp add: escape_char_def)
  next
    case 4
    have "c = CHR 0x0D" using char_is [OF 4] by (simp add: char_of_def bit_Suc_0_iff)
    then show ?thesis by (simp add: escape_char_def)
  next
    case 5
    have "c = CHR 0x09" using char_is [OF 5] by (simp add: char_of_def bit_Suc_0_iff)
    then show ?thesis by (simp add: escape_char_def)
  next
    case 6
    have "c = CHR 0x08" using char_is [OF 6] by (simp add: char_of_def bit_Suc_0_iff)
    then show ?thesis by (simp add: escape_char_def)
  next
    case 7
    have "c = CHR 0x0C" using char_is [OF 7] by (simp add: char_of_def bit_Suc_0_iff)
    then show ?thesis by (simp add: escape_char_def)
  next
    case 8
    have d: "?n div 16 < 16" "?n mod 16 < 16" using lt by (simp_all add: div_less_iff_less_mult)
    have recomposed: "char_of (16 * (?n div 16) + ?n mod 16) = c" by simp
    have esc: "escape_char b c =
        [CHR 0x5C, CHR ''u'', CHR ''0'', CHR ''0'', hex_digit (?n div 16), hex_digit (?n mod 16)]"
      using 8 by (simp add: escape_char_def Let_def)
    show ?thesis unfolding esc using scan_unicode [OF d, of acc cs] recomposed by simp
  next
    case 9
    have esc: "escape_char b c = [c]" using 9 by (simp add: escape_char_def Let_def)
    have "c \<noteq> CHR 0x22" "c \<noteq> CHR 0x5C" "\<not> ?n < 32" using 9 by auto
    then show ?thesis unfolding esc by simp
  qed
qed

lemma scan_string_dumps:
  "scan_string acc (concat (map (escape_char b) s) @ CHR 0x22 # rest) = Some (acc @ s, rest)"
proof (induction s arbitrary: acc)
  case Nil
  show ?case by simp
next
  case (Cons c s)
  show ?case using Cons [of "acc @ [c]"] by (simp add: scan_escape_char)
qed


lemma skip_spaces:
  "list_all json_space ws \<Longrightarrow> \<not> json_space c \<Longrightarrow> dropWhile json_space (ws @ c # cs) = c # cs"
  by (induction ws) simp_all

lemma not_space [simp]:
  "\<not> json_space CHR 0x22" "\<not> json_space CHR ''[''" "\<not> json_space CHR '']''"
  "\<not> json_space CHR ''{''" "\<not> json_space CHR ''}''" "\<not> json_space CHR '',''"
  "\<not> json_space CHR '':''" "json_space CHR '' ''"
  by (simp_all add: json_space_def)

lemma pv_string:
  "list_all json_space ws \<Longrightarrow>
   parse_value (Suc f) (ws @ CHR 0x22 # cs) = map_option (\<lambda>(t, r). (PStr t, r)) (scan_string [] cs)"
  by (simp add: skip_spaces)

lemma pv_list_empty:
  "list_all json_space ws \<Longrightarrow>
   parse_value (Suc f) (ws @ CHR ''['' # CHR '']'' # rest) = Some (PList [], rest)"
  by (simp add: skip_spaces)

lemma pv_list:
  "list_all json_space ws \<Longrightarrow> dropWhile json_space cs = d # ds \<Longrightarrow> d \<noteq> CHR '']'' \<Longrightarrow>
   parse_value (Suc f) (ws @ CHR ''['' # cs) =
     map_option (\<lambda>(vs, r). (PList vs, r)) (parse_elements f [] cs)"
  by (simp add: skip_spaces)

lemma pv_dict_empty:
  "list_all json_space ws \<Longrightarrow>
   parse_value (Suc f) (ws @ CHR ''{'' # CHR ''}'' # rest) = Some (PDict [], rest)"
  by (simp add: skip_spaces)

lemma pv_dict:
  "list_all json_space ws \<Longrightarrow> dropWhile json_space cs = d # ds \<Longrightarrow> d \<noteq> CHR ''}'' \<Longrightarrow>
   parse_value (Suc f) (ws @ CHR ''{'' # cs) =
     map_option (\<lambda>(kvs, r). (PDict kvs, r)) (parse_members f [] cs)"
  by (simp add: skip_spaces)

lemma pe_more:
  "parse_value f s = Some (v, CHR '','' # ds) \<Longrightarrow>
   parse_elements (Suc f) acc s = parse_elements f (acc @ [v]) ds"
  by simp

lemma pe_last:
  "parse_value f s = Some (v, CHR '']'' # ds) \<Longrightarrow>
   parse_elements (Suc f) acc s = Some (acc @ [v], ds)"
  by simp

lemma pm_more:
  "list_all json_space ws \<Longrightarrow> scan_string [] qs = Some (k, CHR '':'' # cs) \<Longrightarrow>
   parse_value f cs = Some (v, CHR '','' # ds) \<Longrightarrow>
   parse_members (Suc f) acc (ws @ CHR 0x22 # qs) = parse_members f (dict_set k v acc) ds"
  by (simp add: skip_spaces)

lemma pm_last:
  "list_all json_space ws \<Longrightarrow> scan_string [] qs = Some (k, CHR '':'' # cs) \<Longrightarrow>
   parse_value f cs = Some (v, CHR ''}'' # ds) \<Longrightarrow>
   parse_members (Suc f) acc (ws @ CHR 0x22 # qs) = Some (dict_set k v acc, ds)"
  by (simp add: skip_spaces)

lemma dumps_first:
  "\<exists>c cs. json_dumps_py b d = c # cs \<and> \<not> json_space c \<and> c \<noteq> CHR '']'' \<and> c \<noteq> CHR ''}''"
  by (cases d) (simp_all add: dumps_str_def)

lemma dict_set_new: "k \<notin> fst ` set d \<Longrightarrow> dict_set k v d = d @ [(k, v)]"
  by (induction d) auto


lemma elements_round_trip:
  assumes "vs \<noteq> []"
    and "\<And>v f ws rest. v \<in> set vs \<Longrightarrow> need v \<le> f \<Longrightarrow> list_all json_space ws \<Longrightarrow>
           parse_value f (ws @ json_dumps_py b v @ rest) = Some (v, rest)"
    and "sum_list (map (\<lambda>v. 1 + need v) vs) \<le> f"
    and "list_all json_space ws"
  shows "parse_elements f acc (ws @ join '', '' (map (json_dumps_py b) vs) @ CHR '']'' # rest) =
         Some (acc @ vs, rest)"
  using assms
proof (induction vs arbitrary: f acc ws rule: list_nonempty_induct)
  case (single v)
  from single.prems(2) obtain f' where f: "f = Suc f'" and n: "need v \<le> f'"
    by (cases f) auto
  have "parse_value f' (ws @ json_dumps_py b v @ CHR '']'' # rest) = Some (v, CHR '']'' # rest)"
    using single.prems(1) [of v f' ws] n single.prems(3) by simp
  then show ?case unfolding f by (simp add: pe_last del: parse_value.simps parse_elements.simps)
next
  case (cons v vs)
  from cons.prems(2) obtain f' where f: "f = Suc f'" and n: "need v \<le> f'"
    and m: "sum_list (map (\<lambda>v. 1 + need v) vs) \<le> f'"
    by (cases f) auto
  obtain u us where vs: "vs = u # us" using cons.hyps by (cases vs) auto
  let ?tail = "CHR '' '' # join '', '' (map (json_dumps_py b) vs) @ CHR '']'' # rest"
  have split: "ws @ join '', '' (map (json_dumps_py b) (v # vs)) @ CHR '']'' # rest =
      ws @ json_dumps_py b v @ CHR '','' # ?tail"
    unfolding vs by simp
  have first: "parse_value f' (ws @ json_dumps_py b v @ CHR '','' # ?tail) = Some (v, CHR '','' # ?tail)"
    using cons.prems(1) [of v f' ws] n cons.prems(3) by simp
  have rest: "parse_elements f' (acc @ [v]) ([CHR '' ''] @ join '', '' (map (json_dumps_py b) vs) @ CHR '']'' # rest)
      = Some ((acc @ [v]) @ vs, rest)"
    by (rule cons.IH) (use cons.prems(1) m in simp_all)
  show ?case
    unfolding split f pe_more [OF first] using rest by simp
qed

lemma json_dumps_dict:
  "json_dumps_py b (PDict kvs) = ''{'' @ join '', '' (map (dumps_member b) kvs) @ ''}''"
proof -
  have "(\<lambda>(k, v). dumps_str b k @ '': '' @ json_dumps_py b v) = dumps_member b"
    by (auto simp: dumps_member_def fun_eq_iff)
  then show ?thesis by simp
qed

lemma members_round_trip:
  assumes "kvs \<noteq> []"
    and "\<And>kv f ws rest. kv \<in> set kvs \<Longrightarrow> need (snd kv) \<le> f \<Longrightarrow> list_all json_space ws \<Longrightarrow>
           parse_value f (ws @ json_dumps_py b (snd kv) @ rest) = Some (snd kv, rest)"
    and "sum_list (map (\<lambda>kv. 1 + need (snd kv)) kvs) \<le> f"
    and "list_all json_space ws"
    and "distinct (map fst kvs)" and "fst ` set acc \<inter> fst ` set kvs = {}"
  shows "parse_members f acc (ws @ join '', '' (map (dumps_member b) kvs) @ CHR ''}'' # rest) =
         Some (acc @ kvs, rest)"
  using assms
proof (induction kvs arbitrary: f acc ws rule: list_nonempty_induct)
  case (single kv)
  obtain k v where kv: "kv = (k, v)" by (cases kv)
  from single.prems(2) obtain f' where f: "f = Suc f'" and n: "need v \<le> f'"
    by (cases f) (auto simp: kv)
  have new: "dict_set k v acc = acc @ [(k, v)]"
    using single.prems(5) by (intro dict_set_new) (auto simp: kv)
  let ?qs = "concat (map (escape_char b) k) @ CHR 0x22 # CHR '':'' # CHR '' '' #
      json_dumps_py b v @ CHR ''}'' # rest"
  have split: "ws @ join '', '' (map (dumps_member b) [(k, v)]) @ CHR ''}'' # rest =
      ws @ CHR 0x22 # ?qs"
    by (simp add: dumps_member_def dumps_str_def)
  have key: "scan_string [] ?qs = Some (k, CHR '':'' # CHR '' '' # json_dumps_py b v @ CHR ''}'' # rest)"
    using scan_string_dumps [of "[]" b k] by simp
  have val: "parse_value f' (CHR '' '' # json_dumps_py b v @ CHR ''}'' # rest) = Some (v, CHR ''}'' # rest)"
    using single.prems(1) [of kv f' "[CHR '' '']" "CHR ''}'' # rest"] n by (simp add: kv)
  show ?case
    unfolding kv split f pm_last [OF single.prems(3) key val] new by simp
next
  case (cons kv kvs)
  obtain k v where kv: "kv = (k, v)" by (cases kv)
  from cons.prems(2) obtain f' where f: "f = Suc f'" and n: "need v \<le> f'"
    and m: "sum_list (map (\<lambda>kv. 1 + need (snd kv)) kvs) \<le> f'"
    by (cases f) (auto simp: kv)
  have new: "dict_set k v acc = acc @ [(k, v)]"
    using cons.prems(5) by (intro dict_set_new) (auto simp: kv)
  obtain u us where kvs: "kvs = u # us" using cons.hyps by (cases kvs) auto
  let ?tail = "CHR '' '' # join '', '' (map (dumps_member b) kvs) @ CHR ''}'' # rest"
  let ?qs = "concat (map (escape_char b) k) @ CHR 0x22 # CHR '':'' # CHR '' '' #
      json_dumps_py b v @ CHR '','' # ?tail"
  have split: "ws @ join '', '' (map (dumps_member b) ((k, v) # kvs)) @ CHR ''}'' # rest =
      ws @ CHR 0x22 # ?qs"
    unfolding kvs by (simp add: dumps_member_def dumps_str_def)
  have key: "scan_string [] ?qs = Some (k, CHR '':'' # CHR '' '' # json_dumps_py b v @ CHR '','' # ?tail)"
    using scan_string_dumps [of "[]" b k] by simp
  have val: "parse_value f' (CHR '' '' # json_dumps_py b v @ CHR '','' # ?tail) = Some (v, CHR '','' # ?tail)"
    using cons.prems(1) [of kv f' "[CHR '' '']" "CHR '','' # ?tail"] n by (simp add: kv)
  have disj: "fst ` set (acc @ [(k, v)]) \<inter> fst ` set kvs = {}"
    using cons.prems(4,5) by (auto simp: kv)
  have rest: "parse_members f' (acc @ [(k, v)])
      ([CHR '' ''] @ join '', '' (map (dumps_member b) kvs) @ CHR ''}'' # rest) =
      Some ((acc @ [(k, v)]) @ kvs, rest)"
    by (rule cons.IH) (use cons.prems(1,4) m disj in simp_all)
  show ?case
    unfolding kv split f pm_more [OF cons.prems(3) key val] new using rest by simp
qed


lemma value_round_trip:
  "distinct_keys d \<Longrightarrow> need d \<le> f \<Longrightarrow> list_all json_space ws \<Longrightarrow>
   parse_value f (ws @ json_dumps_py b d @ rest) = Some (d, rest)"
proof (induction d arbitrary: f ws rest)
  case (PStr s)
  from PStr.prems(2) obtain f' where f: "f = Suc f'" by (cases f) auto
  have "ws @ json_dumps_py b (PStr s) @ rest =
      ws @ CHR 0x22 # concat (map (escape_char b) s) @ CHR 0x22 # rest"
    by (simp add: dumps_str_def)
  then show ?case
    unfolding f using pv_string [OF PStr.prems(3), of f'] scan_string_dumps [of "[]" b s rest]
    by (simp del: parse_value.simps)
next
  case (PList vs)
  from PList.prems(2) obtain f' where f: "f = Suc f'"
    and m: "sum_list (map (\<lambda>v. 1 + need v) vs) \<le> f'"
    by (cases f) auto
  show ?case
  proof (cases "vs = []")
    case True
    then show ?thesis
      unfolding f using pv_list_empty [OF PList.prems(3), of f' rest]
      by (simp del: parse_value.simps)
  next
    case False
    then obtain u us where vs: "vs = u # us" by (cases vs) auto
    let ?cs = "join '', '' (map (json_dumps_py b) vs) @ CHR '']'' # rest"
    obtain c cs where c: "json_dumps_py b u = c # cs" "\<not> json_space c" "c \<noteq> CHR '']''"
      using dumps_first [of b u] by blast
    have "\<exists>ds. ?cs = c # ds" unfolding vs using c(1) by (cases us) simp_all
    then obtain ds where ds: "?cs = c # ds" ..
    have dw: "dropWhile json_space ?cs = c # ds" unfolding ds using c(2) by simp
    have el: "parse_elements f' [] ([] @ ?cs) = Some ([] @ vs, rest)"
    proof (rule elements_round_trip [OF False _ m])
      fix v g ws' rest'
      assume "v \<in> set vs" "need v \<le> g" "list_all json_space ws'"
      then show "parse_value g (ws' @ json_dumps_py b v @ rest') = Some (v, rest')"
        using PList.IH [of v g ws' rest'] PList.prems(1) by simp
    qed simp
    have "ws @ json_dumps_py b (PList vs) @ rest = ws @ CHR ''['' # ?cs" by simp
    then show ?thesis
      unfolding f using pv_list [OF PList.prems(3) dw c(3), of f'] el
      by (simp del: parse_value.simps parse_elements.simps)
  qed
next
  case (PDict kvs)
  from PDict.prems(2) obtain f' where f: "f = Suc f'"
    and m: "sum_list (map (\<lambda>kv. 1 + need (snd kv)) kvs) \<le> f'"
    by (cases f) auto
  show ?case
  proof (cases "kvs = []")
    case True
    then show ?thesis
      unfolding f using pv_dict_empty [OF PDict.prems(3), of f' rest]
      by (simp del: parse_value.simps)
  next
    case False
    then obtain u us where kvs: "kvs = u # us" by (cases kvs) auto
    let ?cs = "join '', '' (map (dumps_member b) kvs) @ CHR ''}'' # rest"
    have "\<exists>ds. ?cs = CHR 0x22 # ds"
      unfolding kvs by (cases us) (simp_all add: dumps_member_def dumps_str_def)
    then obtain ds where ds: "?cs = CHR 0x22 # ds" ..
    have dw: "dropWhile json_space ?cs = CHR 0x22 # ds" unfolding ds by simp
    have ne: "CHR 0x22 \<noteq> CHR ''}''" by simp
    have dist: "distinct (map fst kvs)" using PDict.prems(1) by simp
    have el: "parse_members f' [] ([] @ ?cs) = Some ([] @ kvs, rest)"
    proof (rule members_round_trip [OF False _ m _ dist])
      fix kv g ws' rest'
      assume a: "kv \<in> set kvs" "need (snd kv) \<le> g" "list_all json_space ws'"
      have "snd kv \<in> Basic_BNFs.snds kv" by (cases kv) simp
      then show "parse_value g (ws' @ json_dumps_py b (snd kv) @ rest') = Some (snd kv, rest')"
        using PDict.IH [of kv "snd kv" g ws' rest'] PDict.prems(1) a by simp
    qed simp_all
    have "ws @ json_dumps_py b (PDict kvs) @ rest = ws @ CHR ''{'' # ?cs"
      unfolding json_dumps_dict by simp
    then show ?thesis
      unfolding f using pv_dict [OF PDict.prems(3) dw ne, of f'] el
      by (simp del: parse_value.simps parse_members.simps)
  qed
qed

lemma length_join_bound:
  assumes "sep \<noteq> []" and "\<forall>x\<in>set xs. g x \<le> length (h x)"
  shows "sum_list (map (\<lambda>x. 1 + g x) xs) \<le> 1 + length (join sep (map h xs))"
  using assms(2)
proof (induction xs rule: induct_list012)
  case 1
  show ?case by simp
next
  case (2 x)
  then show ?case by simp
next
  case (3 x y zs)
  have "1 \<le> length sep" using assms(1) by (cases sep) simp_all
  moreover have "sum_list (map (\<lambda>x. 1 + g x) (y # zs)) \<le> 1 + length (join sep (map h (y # zs)))"
    using 3 by simp
  moreover have "g x \<le> length (h x)" using 3 by simp
  ultimately show ?case by simp
qed

lemma need_le_length: "need d \<le> length (json_dumps_py b d)"
proof (induction d)
  case (PStr s)
  show ?case by (simp add: dumps_str_def)
next
  case (PList vs)
  have "sum_list (map (\<lambda>v. 1 + need v) vs) \<le>
      1 + length (join '', '' (map (json_dumps_py b) vs))"
    by (rule length_join_bound) (use PList in simp_all)
  then show ?case by simp
next
  case (PDict kvs)
  have "\<forall>kv\<in>set kvs. need (snd kv) \<le> length (dumps_member b kv)"
  proof
    fix kv assume "kv \<in> set kvs"
    moreover have "snd kv \<in> Basic_BNFs.snds kv" by (cases kv) simp
    ultimately have "need (snd kv) \<le> length (json_dumps_py b (snd kv))" using PDict by blast
    then show "need (snd kv) \<le> length (dumps_member b kv)" by (simp add: dumps_member_def)
  qed
  then have "sum_list (map (\<lambda>kv. 1 + need (snd kv)) kvs) \<le>
      1 + length (join '', '' (map (dumps_member b) kvs))"
    by (intro length_join_bound) simp_all
  then show ?case unfolding json_dumps_dict by simp
qed

lemma json_py_round_trip:
  assumes "distinct_keys d"
  shows "json_loads_py (json_dumps_py b d) = Inr d"
proof -
  have "need d \<le> Suc (length (json_dumps_py b d))"
    using need_le_length [of d b] by simp
  then have "parse_value (Suc (length (json_dumps_py b d))) ([] @ json_dumps_py b d @ []) =
      Some (d, [])"
    using assms by (intro value_round_trip) simp_all
  then show ?thesis by (simp add: json_loads_py_def del: parse_value.simps)
qed

section \<open>The JSON round trip through the normalizer\<close>

text \<open>
  Claim C6. Under the JSON format the normalizer returns what \<open>json.loads\<close> returns,
  unchanged. So for every document \<open>d\<close> that the library's serializer and parser carry
  through (\<open>json.loads(json.dumps(d)) == d\<close>), normalizing the serialization of \<open>d\<close>
  gives \<open>d\<close> back. With the instance of the library given above this holds for every
  document of strings, lists and dictionaries (a dictionary holding each key once), with
  either setting of \<open>ensure_ascii\<close>.
\<close>

theorem C6_json_round_trip:
  "(json_loads (json_dumps d) = Inr d \<and> resp_text r = json_dumps d \<longrightarrow>
      parse_response json_loads fromstring now r ''application/json'' = Inr d) \<and>
   (distinct_keys d \<and> resp_text r = json_dumps_py b d \<longrightarrow>
      parse_response json_loads_py fromstring now r ''application/json'' = Inr d)"
  by (simp add: parse_response_def json_py_round_trip)

text \<open>
  The document \<open>{"data": ["Ley 40", {"t": ...}]}\<close>, whose inner string holds a quote, an
  accented letter and a line feed.
\<close>

theorem C6_json_round_trip_witness:
  "parse_response json_loads_py (\<lambda>s. Inl (XMLSyntaxError ''Start tag expected'')) 0
     \<lparr>status_code = 200,
      resp_text = json_dumps_py True
        (PDict [(''data'', PList [PStr ''Ley 40'',
           PDict [(''t'', PStr [CHR ''a'', CHR 0x22, CHR 0xF3, CHR 0x0A])]])])\<rparr>
     ''application/json'' =
   Inr (PDict [(''data'', PList [PStr ''Ley 40'',
           PDict [(''t'', PStr [CHR ''a'', CHR 0x22, CHR 0xF3, CHR 0x0A])]])])"
  using C6_json_round_trip [where d = "PDict [(''data'', PList [PStr ''Ley 40'',
           PDict [(''t'', PStr [CHR ''a'', CHR 0x22, CHR 0xF3, CHR 0x0A])]])]"
      and b = True
      and r = "\<lparr>status_code = 200,
        resp_text = json_dumps_py True
          (PDict [(''data'', PList [PStr ''Ley 40'',
             PDict [(''t'', PStr [CHR ''a'', CHR 0x22, CHR 0xF3, CHR 0x0A])]])])\<rparr>"
      and fromstring = "\<lambda>s. Inl (XMLSyntaxError ''Start tag expected'')" and now = 0]
  by simp

end
